theory Spec2Isabelle
  imports Main "HOL-Library.Word" "HOL-Library.AList"
begin

section \<open>Data model of the block cache (src/libkbfs/bcache.go)\<close>

text \<open>
  Block identifiers (\<open>kbfsblock.ID\<close>) and folder identifiers (\<open>tlf.ID\<close>) are opaque
  values that the cache only compares for equality; they are natural numbers here.
  The plaintext hash (\<open>kbfshash.RawDefaultHash\<close>) is a type parameter \<open>'h\<close>, and the
  hash function \<open>kbfshash.DoRawDefaultHash\<close> is a parameter \<open>H\<close> of every operation
  that hashes, so that every theorem holds for any hash function, collisions included.
\<close>

text \<open>
  Modelled from the spec: the type \<open>BlockPointer\<close> is declared outside
  src/libkbfs/bcache.go. It is a tuple of a block ID, a reference nonce and further
  fields that the cache never reads; \<open>KeyGen\<close> and \<open>DataVer\<close> stand for those.
  \<open>kbfsblock.ZeroRefNonce\<close> is the nonce \<open>0\<close>.
\<close>

record BlockPointer =
  ID :: nat
  KeyGen :: int
  DataVer :: int
  RefNonce :: nat

definition ZeroRefNonce :: nat where
  "ZeroRefNonce = 0"

text \<open>The zero value \<open>BlockPointer{}\<close> of Go.\<close>

definition zeroBlockPointer :: BlockPointer where
  "zeroBlockPointer = \<lparr>ID = 0, KeyGen = 0, DataVer = 0, RefNonce = 0\<rparr>"

text \<open>
  Modelled from the spec: the block types are declared outside
  src/libkbfs/bcache.go. A file block carries the indirect flag, its plaintext
  contents and the encoded size it reports; a directory block, the abstract common
  block and a block of any other dynamic type report an encoded size
  (\<open>GetEncodedSize\<close>).
\<close>

datatype FileBlock = FileBlock (IsInd: bool) (Contents: "8 word list") (fileEncodedSize: "32 word")

datatype Block =
    DirBlock "32 word"
  | FileBlk FileBlock
  | CommonBlock "32 word"
  | OtherBlock "32 word"

fun GetEncodedSize :: "Block \<Rightarrow> 32 word" where
  "GetEncodedSize (DirBlock n) = n"
| "GetEncodedSize (FileBlk fb) = fileEncodedSize fb"
| "GetEncodedSize (CommonBlock n) = n"
| "GetEncodedSize (OtherBlock n) = n"

text \<open>
  Modelled from the spec: \<open>FileBlock.GetHash\<close> is declared outside
  src/libkbfs/bcache.go; it is the digest of the plaintext contents of the block.
\<close>

definition GetHash :: "(8 word list \<Rightarrow> 'h) \<Rightarrow> FileBlock \<Rightarrow> 'h" where
  "GetHash H fb = H (Contents fb)"

text \<open>
  \<open>BlockCacheLifetime\<close> is an integer type in Go with three named values; any other
  value reaches the \<open>default\<close> branch of \<open>PutWithPrefetch\<close>.
\<close>

datatype BlockCacheLifetime = NoCacheEntry | TransientEntry | PermanentEntry | OtherLifetime nat

datatype blockContainer = blockContainer (block: Block) (hasPrefetched: bool)

datatype error =
    BadDataError nat
  | NoSuchBlockError nat
  | NotDirectFileBlockError
  | cachePutCacheFullError nat
  | AttemptedCommonBlock
  | UnknownBlockType
  | UnknownLifetime nat

section \<open>The LRU cache the block cache is built on\<close>

text \<open>
  Modelled from the spec: \<open>lru.Cache\<close> is the library github.com/hashicorp/golang-lru,
  not part of src/. It is a least-recently-used cache by insertion or access with a
  fixed positive entry count: the list of items has the most recently used entry at
  its head. Every operation that removes an entry returns it, and the caller runs the
  eviction callback on it. \<open>lru.New\<close> fails on a size that is not positive.
\<close>

datatype ('k, 'v) lru = LRU (lru_size: nat) (lru_items: "('k \<times> 'v) list")

definition lru_New :: "int \<Rightarrow> ('k, 'v) lru option" where
  "lru_New n = (if n \<le> 0 then None else Some (LRU (nat n) []))"

definition lru_Len :: "('k, 'v) lru \<Rightarrow> nat" where
  "lru_Len c = length (lru_items c)"

definition lru_Get :: "'k \<Rightarrow> ('k, 'v) lru \<Rightarrow> 'v option \<times> ('k, 'v) lru" where
  "lru_Get k c =
     (case map_of (lru_items c) k of
        None \<Rightarrow> (None, c)
      | Some v \<Rightarrow> (Some v, LRU (lru_size c) ((k, v) # AList.delete k (lru_items c))))"

definition lru_Add :: "'k \<Rightarrow> 'v \<Rightarrow> ('k, 'v) lru \<Rightarrow> ('k, 'v) lru \<times> ('k \<times> 'v) option" where
  "lru_Add k v c =
     (case map_of (lru_items c) k of
        Some old \<Rightarrow> (LRU (lru_size c) ((k, v) # AList.delete k (lru_items c)), None)
      | None \<Rightarrow>
          (if length (lru_items c) + 1 > lru_size c
           then (LRU (lru_size c) (butlast ((k, v) # lru_items c)),
                 Some (last ((k, v) # lru_items c)))
           else (LRU (lru_size c) ((k, v) # lru_items c), None)))"

definition lru_Remove :: "'k \<Rightarrow> ('k, 'v) lru \<Rightarrow> ('k, 'v) lru \<times> ('k \<times> 'v) option" where
  "lru_Remove k c =
     (case map_of (lru_items c) k of
        None \<Rightarrow> (c, None)
      | Some v \<Rightarrow> (LRU (lru_size c) (AList.delete k (lru_items c)), Some (k, v)))"

definition lru_RemoveOldest :: "('k, 'v) lru \<Rightarrow> ('k, 'v) lru \<times> ('k \<times> 'v) option" where
  "lru_RemoveOldest c =
     (if lru_items c = [] then (c, None)
      else (LRU (lru_size c) (butlast (lru_items c)), Some (last (lru_items c))))"

section \<open>The cache\<close>

text \<open>
  \<open>BlockCacheStandard\<close>: the two LRU caches are \<open>None\<close> when the Go pointers are
  \<open>nil\<close>. The permanent map is an association list with one entry for each key. The
  locks are left out: every operation runs alone, from its call to its return.
\<close>

record 'h BlockCacheStandard =
  cleanBytesCapacity :: "64 word"
  ids :: "(nat \<times> 'h, BlockPointer) lru option"
  cleanTransient :: "(nat, blockContainer) lru option"
  cleanPermanent :: "(nat \<times> Block) list"
  cleanTotalBytes :: "64 word"

definition NewBlockCacheStandard :: "int \<Rightarrow> 64 word \<Rightarrow> 'h BlockCacheStandard option" where
  "NewBlockCacheStandard transientCapacity capacity =
     (let b = \<lparr>cleanBytesCapacity = capacity, ids = None, cleanTransient = None,
               cleanPermanent = [], cleanTotalBytes = 0\<rparr>
      in if transientCapacity > 0 then
           (case lru_New transientCapacity of
              None \<Rightarrow> None
            | Some i \<Rightarrow>
                (case lru_New transientCapacity of
                   None \<Rightarrow> None
                 | Some t \<Rightarrow> Some (b\<lparr>ids := Some i, cleanTransient := Some t\<rparr>)))
         else Some b)"

fun getCachedBlockSize :: "Block \<Rightarrow> 32 word" where
  "getCachedBlockSize (FileBlk fb) =
     (if IsInd fb then fileEncodedSize fb else of_nat (length (Contents fb)))"
| "getCachedBlockSize blk = GetEncodedSize blk"

definition subtractBlockBytes :: "'h BlockCacheStandard \<Rightarrow> Block \<Rightarrow> 'h BlockCacheStandard" where
  "subtractBlockBytes b blk =
     (let sz = (ucast (getCachedBlockSize blk) :: 64 word)
      in if cleanTotalBytes b \<ge> sz
         then b\<lparr>cleanTotalBytes := cleanTotalBytes b - sz\<rparr>
         else b\<lparr>cleanTotalBytes := 0\<rparr>)"

text \<open>
  \<open>onEvict\<close> is the callback of the transient LRU. The stored values are always block
  containers, so the type assertion of the source cannot fail. \<open>evicted\<close> runs the
  callback on what an LRU operation removed, if anything.
\<close>

definition onEvict :: "'h BlockCacheStandard \<Rightarrow> nat \<Rightarrow> blockContainer \<Rightarrow> 'h BlockCacheStandard" where
  "onEvict b key bc = subtractBlockBytes b (block bc)"

definition evicted :: "'h BlockCacheStandard \<Rightarrow> (nat \<times> blockContainer) option \<Rightarrow> 'h BlockCacheStandard" where
  "evicted b ev = (case ev of None \<Rightarrow> b | Some (key, bc) \<Rightarrow> onEvict b key bc)"

text \<open>
  The calls \<open>b.cleanTransient.RemoveOldest()\<close>, \<open>.Remove(key)\<close> and \<open>.Add(key, value)\<close>,
  each followed by the callback on what it removed. Every caller has checked that
  \<open>cleanTransient\<close> is not \<open>nil\<close>, so the case \<open>None\<close> is never reached.
\<close>

definition transientRemoveOldest :: "'h BlockCacheStandard \<Rightarrow> 'h BlockCacheStandard" where
  "transientRemoveOldest b =
     (case cleanTransient b of
        None \<Rightarrow> b
      | Some t \<Rightarrow> (case lru_RemoveOldest t of (t', ev) \<Rightarrow> evicted (b\<lparr>cleanTransient := Some t'\<rparr>) ev))"

definition transientRemove :: "nat \<Rightarrow> 'h BlockCacheStandard \<Rightarrow> 'h BlockCacheStandard" where
  "transientRemove key b =
     (case cleanTransient b of
        None \<Rightarrow> b
      | Some t \<Rightarrow> (case lru_Remove key t of (t', ev) \<Rightarrow> evicted (b\<lparr>cleanTransient := Some t'\<rparr>) ev))"

definition transientAdd :: "nat \<Rightarrow> blockContainer \<Rightarrow> 'h BlockCacheStandard \<Rightarrow> 'h BlockCacheStandard" where
  "transientAdd key bc b =
     (case cleanTransient b of
        None \<Rightarrow> b
      | Some t \<Rightarrow> (case lru_Add key bc t of (t', ev) \<Rightarrow> evicted (b\<lparr>cleanTransient := Some t'\<rparr>) ev))"

definition transientLen :: "'h BlockCacheStandard \<Rightarrow> nat" where
  "transientLen b = (case cleanTransient b of None \<Rightarrow> 0 | Some t \<Rightarrow> lru_Len t)"

definition SetCleanBytesCapacity :: "'h BlockCacheStandard \<Rightarrow> 64 word \<Rightarrow> 'h BlockCacheStandard" where
  "SetCleanBytesCapacity b capacity = b\<lparr>cleanBytesCapacity := capacity\<rparr>"

definition GetCleanBytesCapacity :: "'h BlockCacheStandard \<Rightarrow> 64 word" where
  "GetCleanBytesCapacity b = cleanBytesCapacity b"

text \<open>
  The eviction loop of \<open>makeRoomForSize\<close>: \<open>oldLen\<close> is the local variable of that
  name, \<open>sz\<close> the size to make room for and \<open>cap\<close> the capacity read before the loop.
\<close>

function makeRoomLoop ::
  "nat \<Rightarrow> 64 word \<Rightarrow> 64 word \<Rightarrow> 'h BlockCacheStandard \<Rightarrow> 'h BlockCacheStandard" where
  "makeRoomLoop oldLen sz cap b =
     (if cleanTotalBytes b + sz > cap then
        (if oldLen = transientLen b then b
         else makeRoomLoop (transientLen b) sz cap (transientRemoveOldest b))
      else b)"
  by pat_completeness auto
termination
proof (relation "measure (\<lambda>(oldLen, sz, cap, b).
         transientLen b + (if oldLen = transientLen b then 0 else 1))", goal_cases)
  case 1
  show ?case by simp
next
  case (2 oldLen sz cap b)
  show ?case
  proof (cases "cleanTransient b")
    case None
    with 2 show ?thesis
      by (simp add: transientLen_def transientRemoveOldest_def)
  next
    case (Some t)
    with 2 show ?thesis
      by (cases "lru_items t = []")
         (auto simp: transientLen_def transientRemoveOldest_def lru_RemoveOldest_def
            lru_Len_def evicted_def onEvict_def subtractBlockBytes_def Let_def
            split: option.splits prod.splits)
  qed
qed

definition makeRoomForSize ::
  "64 word \<Rightarrow> BlockCacheLifetime \<Rightarrow> 'h BlockCacheStandard \<Rightarrow> bool \<times> 'h BlockCacheStandard" where
  "makeRoomForSize sz lifetime b =
     (case cleanTransient b of
        None \<Rightarrow> (False, b)
      | Some t \<Rightarrow>
          (let cap = GetCleanBytesCapacity b;
               b1 = makeRoomLoop (lru_Len t + 1) sz cap b
           in if cleanTotalBytes b1 + sz > cap then
                (if lifetime = PermanentEntry
                 then (False, b1\<lparr>cleanTotalBytes := cleanTotalBytes b1 + sz\<rparr>)
                 else (False, b1))
              else (True, b1\<lparr>cleanTotalBytes := cleanTotalBytes b1 + sz\<rparr>)))"

section \<open>Put\<close>

text \<open>
  The type switch at the head of \<open>PutWithPrefetch\<close>: only directory blocks and file
  blocks are cached.
\<close>

fun blockTypeCheck :: "Block \<Rightarrow> error option" where
  "blockTypeCheck (DirBlock n) = None"
| "blockTypeCheck (FileBlk fb) = None"
| "blockTypeCheck (CommonBlock n) = Some AttemptedCommonBlock"
| "blockTypeCheck (OtherBlock n) = Some UnknownBlockType"

text \<open>
  The first statement of the \<open>TransientEntry\<close> case: a direct file block is recorded
  in \<open>ids\<close> under the folder and the hash of its contents, with the pointer's nonce
  zeroed. The assignment to \<open>ptr.RefNonce\<close> changes the local variable \<open>ptr\<close>, so the
  pointer is returned with the cache. The \<open>ids\<close> cache has no eviction callback.
\<close>

definition recordKnownPtr ::
  "(8 word list \<Rightarrow> 'h) \<Rightarrow> 'h BlockCacheStandard \<Rightarrow> BlockPointer \<Rightarrow> nat \<Rightarrow> Block
     \<Rightarrow> BlockPointer \<times> 'h BlockCacheStandard" where
  "recordKnownPtr H b ptr tlf blk =
     (case ids b of
        None \<Rightarrow> (ptr, b)
      | Some c \<Rightarrow>
          (case blk of
             FileBlk fBlock \<Rightarrow>
               (if \<not> IsInd fBlock then
                  (let key = (tlf, GetHash H fBlock);
                       ptr' = ptr\<lparr>RefNonce := ZeroRefNonce\<rparr>
                   in (ptr', b\<lparr>ids := Some (fst (lru_Add key ptr' c))\<rparr>))
                else (ptr, b))
           | _ \<Rightarrow> (ptr, b)))"

text \<open>
  The end of \<open>PutWithPrefetch\<close>, from \<open>transientCacheHasRoom := true\<close> on, which the
  transient and the permanent case share.
\<close>

definition putMakeRoom ::
  "'h BlockCacheStandard \<Rightarrow> BlockPointer \<Rightarrow> Block \<Rightarrow> BlockCacheLifetime \<Rightarrow> bool \<Rightarrow> bool
     \<Rightarrow> error option \<times> 'h BlockCacheStandard" where
  "putMakeRoom b ptr blk lifetime hp wasInCache =
     (case (if \<not> wasInCache
            then makeRoomForSize (ucast (getCachedBlockSize blk)) lifetime b
            else (True, b)) of
        (transientCacheHasRoom, b1) \<Rightarrow>
          (if lifetime = TransientEntry then
             (if \<not> transientCacheHasRoom then (Some (cachePutCacheFullError (ID ptr)), b1)
              else (None, transientAdd (ID ptr) (blockContainer blk hp) b1))
           else (None, b1)))"

definition PutWithPrefetch ::
  "(8 word list \<Rightarrow> 'h) \<Rightarrow> 'h BlockCacheStandard \<Rightarrow> BlockPointer \<Rightarrow> nat \<Rightarrow> Block
     \<Rightarrow> BlockCacheLifetime \<Rightarrow> bool \<Rightarrow> error option \<times> 'h BlockCacheStandard" where
  "PutWithPrefetch H b ptr tlf blk lifetime hp =
     (case blockTypeCheck blk of
        Some e \<Rightarrow> (Some e, b)
      | None \<Rightarrow>
          (case lifetime of
             NoCacheEntry \<Rightarrow> (None, b)
           | TransientEntry \<Rightarrow>
               (case recordKnownPtr H b ptr tlf blk of
                  (ptr1, b1) \<Rightarrow>
                    (case cleanTransient b1 of
                       None \<Rightarrow> (None, b1)
                     | Some t \<Rightarrow>
                         (case lru_Get (ID ptr1) t of
                            (None, t') \<Rightarrow>
                              putMakeRoom (b1\<lparr>cleanTransient := Some t'\<rparr>) ptr1 blk
                                TransientEntry hp False
                          | (Some bc, t') \<Rightarrow>
                              putMakeRoom (b1\<lparr>cleanTransient := Some t'\<rparr>) ptr1 blk
                                TransientEntry (hp \<or> hasPrefetched bc) True)))
           | PermanentEntry \<Rightarrow>
               putMakeRoom (b\<lparr>cleanPermanent := AList.update (ID ptr) blk (cleanPermanent b)\<rparr>)
                 ptr blk PermanentEntry hp (map_of (cleanPermanent b) (ID ptr) \<noteq> None)
           | OtherLifetime n \<Rightarrow> (Some (UnknownLifetime n), b)))"

definition Put ::
  "(8 word list \<Rightarrow> 'h) \<Rightarrow> 'h BlockCacheStandard \<Rightarrow> BlockPointer \<Rightarrow> nat \<Rightarrow> Block
     \<Rightarrow> BlockCacheLifetime \<Rightarrow> error option \<times> 'h BlockCacheStandard" where
  "Put H b ptr tlf blk lifetime = PutWithPrefetch H b ptr tlf blk lifetime True"

section \<open>Get and the lookup by hash\<close>

text \<open>
  The four results of \<open>GetWithPrefetch\<close> are a sum: the error, or the block with its
  prefetch flag and lifetime. The probe of the transient LRU refreshes the entry, so
  the cache is returned as well. The transient LRU holds block containers and \<open>ids\<close>
  holds block pointers, by their types: the type assertions of the source on what
  \<open>Get\<close> of an LRU returns cannot fail, so the returns of \<open>BadDataError\<close> and of the
  error for an unexpected cached id are left out. The permanent map never holds a
  \<open>nil\<close> block, since \<open>PutWithPrefetch\<close> rejects it.
\<close>

definition GetWithPrefetch ::
  "'h BlockCacheStandard \<Rightarrow> BlockPointer
     \<Rightarrow> (error + Block \<times> bool \<times> BlockCacheLifetime) \<times> 'h BlockCacheStandard" where
  "GetWithPrefetch b ptr =
     (case (case cleanTransient b of
              None \<Rightarrow> (None, b)
            | Some t \<Rightarrow>
                (case lru_Get (ID ptr) t of (r, t') \<Rightarrow> (r, b\<lparr>cleanTransient := Some t'\<rparr>))) of
        (Some bc, b1) \<Rightarrow> (Inr (block bc, hasPrefetched bc, TransientEntry), b1)
      | (None, b1) \<Rightarrow>
          (case map_of (cleanPermanent b1) (ID ptr) of
             Some blk \<Rightarrow> (Inr (blk, True, PermanentEntry), b1)
           | None \<Rightarrow> (Inl (NoSuchBlockError (ID ptr)), b1)))"

definition Get ::
  "'h BlockCacheStandard \<Rightarrow> BlockPointer \<Rightarrow> (error + Block) \<times> 'h BlockCacheStandard" where
  "Get b ptr =
     (case GetWithPrefetch b ptr of
        (Inl e, b1) \<Rightarrow> (Inl e, b1)
      | (Inr (blk, _, _), b1) \<Rightarrow> (Inr blk, b1))"

definition CheckForKnownPtr ::
  "(8 word list \<Rightarrow> 'h) \<Rightarrow> 'h BlockCacheStandard \<Rightarrow> nat \<Rightarrow> FileBlock
     \<Rightarrow> (error + BlockPointer) \<times> 'h BlockCacheStandard" where
  "CheckForKnownPtr H b tlf fBlock =
     (if IsInd fBlock then (Inl NotDirectFileBlockError, b)
      else
        (case ids b of
           None \<Rightarrow> (Inr zeroBlockPointer, b)
         | Some c \<Rightarrow>
             (case lru_Get (tlf, GetHash H fBlock) c of
                (None, c') \<Rightarrow> (Inr zeroBlockPointer, b\<lparr>ids := Some c'\<rparr>)
              | (Some ptr, c') \<Rightarrow> (Inr ptr, b\<lparr>ids := Some c'\<rparr>))))"

section \<open>Delete\<close>

definition DeletePermanent ::
  "'h BlockCacheStandard \<Rightarrow> nat \<Rightarrow> error option \<times> 'h BlockCacheStandard" where
  "DeletePermanent b key =
     (case map_of (cleanPermanent b) key of
        Some blk \<Rightarrow>
          (None, subtractBlockBytes (b\<lparr>cleanPermanent := AList.delete key (cleanPermanent b)\<rparr>) blk)
      | None \<Rightarrow> (None, b))"

text \<open>The removal of the known pointer inside \<open>DeleteTransient\<close>.\<close>

definition forgetKnownPtr ::
  "(8 word list \<Rightarrow> 'h) \<Rightarrow> 'h BlockCacheStandard \<Rightarrow> nat \<Rightarrow> Block \<Rightarrow> 'h BlockCacheStandard" where
  "forgetKnownPtr H b tlf blk =
     (case ids b of
        None \<Rightarrow> b
      | Some c \<Rightarrow>
          (case blk of
             FileBlk fBlock \<Rightarrow>
               (if \<not> IsInd fBlock
                then b\<lparr>ids := Some (fst (lru_Remove (tlf, H (Contents fBlock)) c))\<rparr>
                else b)
           | _ \<Rightarrow> b))"

definition DeleteTransient ::
  "(8 word list \<Rightarrow> 'h) \<Rightarrow> 'h BlockCacheStandard \<Rightarrow> BlockPointer \<Rightarrow> nat
     \<Rightarrow> error option \<times> 'h BlockCacheStandard" where
  "DeleteTransient H b ptr tlf =
     (case cleanTransient b of
        None \<Rightarrow> (None, b)
      | Some t \<Rightarrow>
          (case lru_Get (ID ptr) t of
             (None, t') \<Rightarrow> (None, b\<lparr>cleanTransient := Some t'\<rparr>)
           | (Some bc, t') \<Rightarrow>
               (None, transientRemove (ID ptr)
                        (forgetKnownPtr H (b\<lparr>cleanTransient := Some t'\<rparr>) tlf (block bc)))))"

definition DeleteKnownPtr ::
  "(8 word list \<Rightarrow> 'h) \<Rightarrow> 'h BlockCacheStandard \<Rightarrow> nat \<Rightarrow> FileBlock
     \<Rightarrow> error option \<times> 'h BlockCacheStandard" where
  "DeleteKnownPtr H b tlf fBlock =
     (if IsInd fBlock then (Some NotDirectFileBlockError, b)
      else
        (case ids b of
           None \<Rightarrow> (None, b)
         | Some c \<Rightarrow> (None, b\<lparr>ids := Some (fst (lru_Remove (tlf, H (Contents fBlock)) c))\<rparr>)))"

section \<open>Sequences of operations\<close>

text \<open>
  A call of the interface, and the cache after a list of calls run one after the
  other, each from its call to its return.
\<close>

datatype op =
    OpPut BlockPointer nat Block BlockCacheLifetime bool
  | OpGet BlockPointer
  | OpCheckForKnownPtr nat FileBlock
  | OpSetCleanBytesCapacity "64 word"
  | OpDeletePermanent nat
  | OpDeleteTransient BlockPointer nat
  | OpDeleteKnownPtr nat FileBlock

fun step :: "(8 word list \<Rightarrow> 'h) \<Rightarrow> 'h BlockCacheStandard \<Rightarrow> op \<Rightarrow> 'h BlockCacheStandard" where
  "step H b (OpPut ptr tlf blk lifetime hp) = snd (PutWithPrefetch H b ptr tlf blk lifetime hp)"
| "step H b (OpGet ptr) = snd (GetWithPrefetch b ptr)"
| "step H b (OpCheckForKnownPtr tlf fb) = snd (CheckForKnownPtr H b tlf fb)"
| "step H b (OpSetCleanBytesCapacity c) = SetCleanBytesCapacity b c"
| "step H b (OpDeletePermanent key) = snd (DeletePermanent b key)"
| "step H b (OpDeleteTransient ptr tlf) = snd (DeleteTransient H b ptr tlf)"
| "step H b (OpDeleteKnownPtr tlf fb) = snd (DeleteKnownPtr H b tlf fb)"

fun run :: "(8 word list \<Rightarrow> 'h) \<Rightarrow> 'h BlockCacheStandard \<Rightarrow> op list \<Rightarrow> 'h BlockCacheStandard" where
  "run H b [] = b"
| "run H b (x # xs) = run H (step H b x) xs"

section \<open>The bytes of the resident blocks\<close>

definition cachedSize :: "Block \<Rightarrow> nat" where
  "cachedSize blk = unat (getCachedBlockSize blk)"

definition transientBytes :: "'h BlockCacheStandard \<Rightarrow> nat" where
  "transientBytes b =
     (case cleanTransient b of
        None \<Rightarrow> 0
      | Some t \<Rightarrow> sum_list (map (\<lambda>kv. cachedSize (block (snd kv))) (lru_items t)))"

definition permanentBytes :: "'h BlockCacheStandard \<Rightarrow> nat" where
  "permanentBytes b = sum_list (map (\<lambda>kv. cachedSize (snd kv)) (cleanPermanent b))"

definition residentBytes :: "'h BlockCacheStandard \<Rightarrow> nat" where
  "residentBytes b = transientBytes b + permanentBytes b"

text \<open>\<open>usedBytes\<close> equals the bytes of the resident blocks.\<close>

definition accounted :: "'h BlockCacheStandard \<Rightarrow> bool" where
  "accounted b = (unat (cleanTotalBytes b) = residentBytes b)"

section \<open>Residency and well-formed caches\<close>

text \<open>What the two stores hold under a block ID.\<close>

definition transientLookup :: "'h BlockCacheStandard \<Rightarrow> nat \<Rightarrow> blockContainer option" where
  "transientLookup b key = (case cleanTransient b of None \<Rightarrow> None | Some t \<Rightarrow> map_of (lru_items t) key)"

definition permanentLookup :: "'h BlockCacheStandard \<Rightarrow> nat \<Rightarrow> Block option" where
  "permanentLookup b key = map_of (cleanPermanent b) key"

text \<open>
  The LRU library keeps at most \<open>size\<close> entries, one for each key, and its size is
  positive. \<open>NewBlockCacheStandard\<close> creates both LRU caches or none of them.
\<close>

definition lru_wf :: "('k, 'v) lru \<Rightarrow> bool" where
  "lru_wf c = (0 < lru_size c \<and> length (lru_items c) \<le> lru_size c \<and> distinct (map fst (lru_items c)))"

definition wellformed :: "'h BlockCacheStandard \<Rightarrow> bool" where
  "wellformed b =
     ((case cleanTransient b of None \<Rightarrow> True | Some t \<Rightarrow> lru_wf t) \<and>
      (case ids b of None \<Rightarrow> True | Some c \<Rightarrow> lru_wf c) \<and>
      distinct (map fst (cleanPermanent b)) \<and>
      ((ids b = None) = (cleanTransient b = None)))"

text \<open>What \<open>ids\<close> holds under a folder and a hash.\<close>

definition knownPtrLookup :: "'h BlockCacheStandard \<Rightarrow> nat \<times> 'h \<Rightarrow> BlockPointer option" where
  "knownPtrLookup b key = (case ids b of None \<Rightarrow> None | Some c \<Rightarrow> map_of (lru_items c) key)"


text \<open>The cache that \<open>NewBlockCacheStandard\<close> returns.\<close>

definition newCache :: "int \<Rightarrow> 64 word \<Rightarrow> 'h BlockCacheStandard" where
  "newCache n c =
     \<lparr>cleanBytesCapacity = c,
      ids = (if n > 0 then Some (LRU (nat n) []) else None),
      cleanTransient = (if n > 0 then Some (LRU (nat n) []) else None),
      cleanPermanent = [], cleanTotalBytes = 0\<rparr>"

section \<open>Byte accounting and the origin of known pointers\<close>

text \<open>
  \<open>charged b m\<close>: the byte counter is the bytes of the transient store plus \<open>m\<close>.
\<close>

definition charged :: "'h BlockCacheStandard \<Rightarrow> nat \<Rightarrow> bool" where
  "charged b m = (unat (cleanTotalBytes b) = transientBytes b + m)"

text \<open>
  The assumption written above \<open>PutWithPrefetch\<close>: a block put under an ID that the
  target store holds has the size of the block stored there.
\<close>

definition putKeepsSize ::
  "'h BlockCacheStandard \<Rightarrow> BlockPointer \<Rightarrow> Block \<Rightarrow> BlockCacheLifetime \<Rightarrow> bool" where
  "putKeepsSize b ptr blk lifetime =
     (case lifetime of
        TransientEntry \<Rightarrow>
          (case transientLookup b (ID ptr) of
             None \<Rightarrow> True
           | Some bc \<Rightarrow> cachedSize (block bc) = cachedSize blk)
      | PermanentEntry \<Rightarrow>
          (case permanentLookup b (ID ptr) of
             None \<Rightarrow> True
           | Some old \<Rightarrow> cachedSize old = cachedSize blk)
      | _ \<Rightarrow> True)"

text \<open>
  A call is admissible when, for a put, the assumption above holds and the resident
  bytes with the new block stay below \<open>2 ^ 64\<close>. A list of calls is admissible when
  each call is, in the cache that the calls before it leave.
\<close>

fun opAdmissible :: "'h BlockCacheStandard \<Rightarrow> op \<Rightarrow> bool" where
  "opAdmissible b (OpPut ptr tlf blk lifetime hp) =
     (putKeepsSize b ptr blk lifetime \<and> residentBytes b + cachedSize blk < 2 ^ 64)"
| "opAdmissible b x = True"

fun admissible :: "(8 word list \<Rightarrow> 'h) \<Rightarrow> 'h BlockCacheStandard \<Rightarrow> op list \<Rightarrow> bool" where
  "admissible H b [] = True"
| "admissible H b (x # xs) = (opAdmissible b x \<and> admissible H (step H b x) xs)"

text \<open>
  \<open>recordedBy H key p x\<close>: the call \<open>x\<close> is a put with the transient lifetime of a
  direct file block whose folder and hash are \<open>key\<close>, at the pointer \<open>p\<close> up to its
  nonce.
\<close>

definition recordedBy :: "(8 word list \<Rightarrow> 'h) \<Rightarrow> nat \<times> 'h \<Rightarrow> BlockPointer \<Rightarrow> op \<Rightarrow> bool" where
  "recordedBy H key p x =
     (case x of
        OpPut ptr tlf blk lifetime hp \<Rightarrow>
          lifetime = TransientEntry \<and>
          (case blk of
             FileBlk fb \<Rightarrow>
               \<not> IsInd fb \<and> key = (tlf, H (Contents fb)) \<and> p = ptr\<lparr>RefNonce := ZeroRefNonce\<rparr>
           | _ \<Rightarrow> False)
      | _ \<Rightarrow> False)"

section \<open>Concrete values for the examples\<close>

definition exampleHash :: "8 word list \<Rightarrow> nat" where
  "exampleHash bs = sum_list (map unat bs)"

definition examplePtr :: "nat \<Rightarrow> BlockPointer" where
  "examplePtr i = \<lparr>ID = i, KeyGen = 1, DataVer = 1, RefNonce = 5\<rparr>"

definition exampleFile :: FileBlock where
  "exampleFile = FileBlock False (replicate 32 0xAA) 48"

definition exampleResident :: "nat BlockCacheStandard" where
  "exampleResident =
     snd (PutWithPrefetch exampleHash (newCache 10 1000) (examplePtr 1) 0 (FileBlk exampleFile)
            TransientEntry False)"

section \<open>The LRU operations keep the cache well-formed\<close>

lemma length_delete_less:
  "map_of al k = Some v \<Longrightarrow> length (AList.delete k al) < length al"
  by (induction al) (auto simp: less_Suc_eq_le AList.delete_eq intro: le_trans[OF length_filter_le])

lemma length_delete_le: "length (AList.delete k al) \<le> length al"
  by (simp add: AList.delete_eq)

lemma delete_notin: "(k, v) \<notin> set (AList.delete k al)"
  by (simp add: AList.delete_eq)

lemma delete_key_notin: "k \<notin> fst ` set (AList.delete k al)"
  by (auto simp: AList.delete_eq)

lemma lru_wf_Get: "lru_wf c \<Longrightarrow> lru_wf (snd (lru_Get k c))"
proof (cases "map_of (lru_items c) k")
  case None
  assume "lru_wf c"
  with None show ?thesis by (simp add: lru_Get_def)
next
  case (Some v)
  assume wf: "lru_wf c"
  from length_delete_less[OF Some] wf
  have "Suc (length (AList.delete k (lru_items c))) \<le> lru_size c"
    by (simp add: lru_wf_def)
  with wf Some show ?thesis
    by (simp add: lru_wf_def lru_Get_def AList.distinct_delete delete_key_notin)
qed

lemma lru_wf_Add: "lru_wf c \<Longrightarrow> lru_wf (fst (lru_Add k v c))"
proof (cases "map_of (lru_items c) k")
  case None
  assume wf: "lru_wf c"
  from None have "k \<notin> fst ` set (lru_items c)"
    by (simp add: map_of_eq_None_iff)
  with wf None show ?thesis
    by (auto simp: lru_wf_def lru_Add_def map_butlast distinct_butlast
          dest: in_set_butlastD)
next
  case (Some old)
  assume wf: "lru_wf c"
  from length_delete_less[OF Some] wf
  have "Suc (length (AList.delete k (lru_items c))) \<le> lru_size c"
    by (simp add: lru_wf_def)
  with wf Some show ?thesis
    by (simp add: lru_wf_def lru_Add_def AList.distinct_delete delete_key_notin)
qed

lemma lru_wf_Remove: "lru_wf c \<Longrightarrow> lru_wf (fst (lru_Remove k c))"
  using length_delete_le[of k "lru_items c"]
  by (auto simp: lru_wf_def lru_Remove_def AList.distinct_delete split: option.splits)

lemma lru_wf_RemoveOldest: "lru_wf c \<Longrightarrow> lru_wf (fst (lru_RemoveOldest c))"
  by (auto simp: lru_wf_def lru_RemoveOldest_def map_butlast distinct_butlast)

section \<open>What the operations leave unchanged, and well-formedness\<close>

declare makeRoomLoop.simps [simp del]

lemma subtractBlockBytes_frame [simp]:
  "cleanTransient (subtractBlockBytes b blk) = cleanTransient b"
  "ids (subtractBlockBytes b blk) = ids b"
  "cleanPermanent (subtractBlockBytes b blk) = cleanPermanent b"
  "cleanBytesCapacity (subtractBlockBytes b blk) = cleanBytesCapacity b"
  by (simp_all add: subtractBlockBytes_def Let_def)

lemma evicted_frame [simp]:
  "cleanTransient (evicted b ev) = cleanTransient b"
  "ids (evicted b ev) = ids b"
  "cleanPermanent (evicted b ev) = cleanPermanent b"
  "cleanBytesCapacity (evicted b ev) = cleanBytesCapacity b"
  by (simp_all add: evicted_def onEvict_def split: option.splits prod.splits)

lemma transientRemoveOldest_frame [simp]:
  "cleanTransient (transientRemoveOldest b) = map_option (\<lambda>t. fst (lru_RemoveOldest t)) (cleanTransient b)"
  "ids (transientRemoveOldest b) = ids b"
  "cleanPermanent (transientRemoveOldest b) = cleanPermanent b"
  "cleanBytesCapacity (transientRemoveOldest b) = cleanBytesCapacity b"
  by (simp_all add: transientRemoveOldest_def split: option.splits prod.splits)

lemma transientRemove_frame [simp]:
  "cleanTransient (transientRemove k b) = map_option (\<lambda>t. fst (lru_Remove k t)) (cleanTransient b)"
  "ids (transientRemove k b) = ids b"
  "cleanPermanent (transientRemove k b) = cleanPermanent b"
  "cleanBytesCapacity (transientRemove k b) = cleanBytesCapacity b"
  by (simp_all add: transientRemove_def split: option.splits prod.splits)

lemma transientAdd_frame [simp]:
  "cleanTransient (transientAdd k v b) = map_option (\<lambda>t. fst (lru_Add k v t)) (cleanTransient b)"
  "ids (transientAdd k v b) = ids b"
  "cleanPermanent (transientAdd k v b) = cleanPermanent b"
  "cleanBytesCapacity (transientAdd k v b) = cleanBytesCapacity b"
  by (simp_all add: transientAdd_def split: option.splits prod.splits)

lemma makeRoomLoop_preserves:
  assumes step: "\<And>b. P b \<Longrightarrow> P (transientRemoveOldest b)"
  shows "P b \<Longrightarrow> P (makeRoomLoop oldLen sz cap b)"
proof (induction oldLen sz cap b rule: makeRoomLoop.induct)
  case (1 oldLen sz cap b)
  show ?case
  proof (cases "cleanTotalBytes b + sz > cap \<and> oldLen \<noteq> transientLen b")
    case True
    then have "makeRoomLoop oldLen sz cap b =
        makeRoomLoop (transientLen b) sz cap (transientRemoveOldest b)"
      by (simp add: makeRoomLoop.simps[of oldLen])
    with True 1 step show ?thesis by simp
  next
    case False
    then have "makeRoomLoop oldLen sz cap b = b"
      by (auto simp: makeRoomLoop.simps[of oldLen])
    with 1 show ?thesis by simp
  qed
qed

lemma makeRoomLoop_frame [simp]:
  "ids (makeRoomLoop oldLen sz cap b) = ids b"
  "cleanPermanent (makeRoomLoop oldLen sz cap b) = cleanPermanent b"
  "cleanBytesCapacity (makeRoomLoop oldLen sz cap b) = cleanBytesCapacity b"
proof -
  show "ids (makeRoomLoop oldLen sz cap b) = ids b"
    by (rule makeRoomLoop_preserves[where P = "\<lambda>x. ids x = ids b"]) simp_all
  show "cleanPermanent (makeRoomLoop oldLen sz cap b) = cleanPermanent b"
    by (rule makeRoomLoop_preserves[where P = "\<lambda>x. cleanPermanent x = cleanPermanent b"]) simp_all
  show "cleanBytesCapacity (makeRoomLoop oldLen sz cap b) = cleanBytesCapacity b"
    by (rule makeRoomLoop_preserves[where P = "\<lambda>x. cleanBytesCapacity x = cleanBytesCapacity b"]) simp_all
qed

lemma makeRoomLoop_transient_iff:
  "(cleanTransient (makeRoomLoop oldLen sz cap b) = None) = (cleanTransient b = None)"
  by (rule makeRoomLoop_preserves[where P = "\<lambda>x. (cleanTransient x = None) = (cleanTransient b = None)"])
     simp_all

lemma makeRoomLoop_transient_Some:
  "cleanTransient b = Some t \<Longrightarrow> \<exists>t'. cleanTransient (makeRoomLoop oldLen sz cap b) = Some t'"
  using makeRoomLoop_transient_iff[of oldLen sz cap b] by auto

lemma wellformed_transientRemoveOldest:
  "wellformed b \<Longrightarrow> wellformed (transientRemoveOldest b)"
  by (auto simp: wellformed_def lru_wf_RemoveOldest split: option.splits)

lemma wellformed_transientRemove:
  "wellformed b \<Longrightarrow> wellformed (transientRemove k b)"
  by (auto simp: wellformed_def lru_wf_Remove split: option.splits)

lemma wellformed_transientAdd:
  "wellformed b \<Longrightarrow> wellformed (transientAdd k v b)"
  by (auto simp: wellformed_def lru_wf_Add split: option.splits)

lemma wellformed_bytes [simp]:
  "wellformed (b\<lparr>cleanTotalBytes := n\<rparr>) = wellformed b"
  by (simp add: wellformed_def)

lemma wellformed_capacity [simp]:
  "wellformed (b\<lparr>cleanBytesCapacity := n\<rparr>) = wellformed b"
  by (simp add: wellformed_def)

lemma wellformed_makeRoomLoop:
  "wellformed b \<Longrightarrow> wellformed (makeRoomLoop oldLen sz cap b)"
  by (rule makeRoomLoop_preserves[where P = wellformed]) (simp_all add: wellformed_transientRemoveOldest)

lemma makeRoomForSize_frame [simp]:
  "ids (snd (makeRoomForSize sz lt b)) = ids b"
  "cleanPermanent (snd (makeRoomForSize sz lt b)) = cleanPermanent b"
  "cleanBytesCapacity (snd (makeRoomForSize sz lt b)) = cleanBytesCapacity b"
  by (simp_all add: makeRoomForSize_def Let_def split: option.splits)

lemma makeRoomForSize_transient_iff:
  "(cleanTransient (snd (makeRoomForSize sz lt b)) = None) = (cleanTransient b = None)"
proof (cases "cleanTransient b")
  case None
  then show ?thesis by (simp add: makeRoomForSize_def)
next
  case (Some t)
  from makeRoomLoop_transient_Some[OF Some]
  obtain t' where "cleanTransient (makeRoomLoop (Suc (lru_Len t)) sz (GetCleanBytesCapacity b) b) = Some t'"
    by blast
  with Some show ?thesis by (simp add: makeRoomForSize_def Let_def)
qed

lemma wellformed_makeRoomForSize:
  "wellformed b \<Longrightarrow> wellformed (snd (makeRoomForSize sz lt b))"
  by (simp add: makeRoomForSize_def Let_def wellformed_makeRoomLoop split: option.splits)

lemma wellformed_putMakeRoom:
  assumes "wellformed b"
  shows "wellformed (snd (putMakeRoom b ptr blk lt hp w))"
proof (cases w)
  case True
  with assms show ?thesis
    by (simp add: putMakeRoom_def wellformed_transientAdd)
next
  case False
  obtain r b1 where mr: "makeRoomForSize (ucast (getCachedBlockSize blk)) lt b = (r, b1)"
    by (cases "makeRoomForSize (ucast (getCachedBlockSize blk)) lt b")
  with wellformed_makeRoomForSize[OF assms, of "ucast (getCachedBlockSize blk)" lt]
  have "wellformed b1" by simp
  with False mr show ?thesis
    by (simp add: putMakeRoom_def wellformed_transientAdd)
qed

lemma wellformed_recordKnownPtr:
  "wellformed b \<Longrightarrow> wellformed (snd (recordKnownPtr H b ptr tlf blk))"
  by (auto simp: recordKnownPtr_def wellformed_def Let_def lru_wf_Add
      split: option.splits Block.splits)

lemma wellformed_forgetKnownPtr:
  "wellformed b \<Longrightarrow> wellformed (forgetKnownPtr H b tlf blk)"
  by (auto simp: forgetKnownPtr_def wellformed_def lru_wf_Remove
      split: option.splits Block.splits)

lemma wellformed_transient_Get:
  "wellformed b \<Longrightarrow> cleanTransient b = Some t \<Longrightarrow>
   wellformed (b\<lparr>cleanTransient := Some (snd (lru_Get k t))\<rparr>)"
  by (simp add: wellformed_def lru_wf_Get)

lemma wellformed_PutWithPrefetch:
  assumes "wellformed b"
  shows "wellformed (snd (PutWithPrefetch H b ptr tlf blk lt hp))"
proof -
  have perm: "wellformed (b\<lparr>cleanPermanent := AList.update k blk (cleanPermanent b)\<rparr>)" for k
    using assms by (simp add: wellformed_def AList.distinct_update)
  have tr: "wellformed (snd (putMakeRoom (b1\<lparr>cleanTransient := Some t'\<rparr>) p blk TransientEntry h w))"
    if "recordKnownPtr H b ptr tlf blk = (p1, b1)" "cleanTransient b1 = Some t" "lru_Get k t = (r, t')"
    for p1 b1 t k r t' p h w
  proof -
    from that(1) assms have "wellformed b1"
      using wellformed_recordKnownPtr[of b H ptr tlf blk] by simp
    with that(2,3) wellformed_transient_Get[of b1 t k] show ?thesis
      by (simp add: wellformed_putMakeRoom)
  qed
  from assms show ?thesis
    unfolding PutWithPrefetch_def
    using perm tr wellformed_recordKnownPtr[of b H ptr tlf blk]
    by (auto simp: wellformed_putMakeRoom split: option.splits BlockCacheLifetime.splits prod.splits)
qed

lemma wellformed_GetWithPrefetch:
  "wellformed b \<Longrightarrow> wellformed (snd (GetWithPrefetch b ptr))"
  by (auto simp: GetWithPrefetch_def wellformed_def lru_wf_Get split: option.splits prod.splits
      dest: lru_wf_Get[where k = "ID ptr"])

lemma wellformed_CheckForKnownPtr:
  "wellformed b \<Longrightarrow> wellformed (snd (CheckForKnownPtr H b tlf fb))"
  by (auto simp: CheckForKnownPtr_def wellformed_def split: option.splits prod.splits
      dest: lru_wf_Get[where k = "(tlf, GetHash H fb)"])

lemma wellformed_DeletePermanent:
  "wellformed b \<Longrightarrow> wellformed (snd (DeletePermanent b key))"
  by (auto simp: DeletePermanent_def wellformed_def AList.distinct_delete split: option.splits)

lemma wellformed_DeleteTransient:
  assumes "wellformed b"
  shows "wellformed (snd (DeleteTransient H b ptr tlf))"
proof (cases "cleanTransient b")
  case None
  with assms show ?thesis by (simp add: DeleteTransient_def)
next
  case (Some t)
  from wellformed_transient_Get[OF assms Some, of "ID ptr"]
  have "wellformed (b\<lparr>cleanTransient := Some (snd (lru_Get (ID ptr) t))\<rparr>)" .
  then show ?thesis
    using Some
    by (cases "lru_Get (ID ptr) t")
       (auto simp: DeleteTransient_def wellformed_transientRemove wellformed_forgetKnownPtr
          split: option.splits)
qed

lemma wellformed_DeleteKnownPtr:
  "wellformed b \<Longrightarrow> wellformed (snd (DeleteKnownPtr H b tlf fb))"
  by (auto simp: DeleteKnownPtr_def wellformed_def lru_wf_Remove split: option.splits)

lemma wellformed_step: "wellformed b \<Longrightarrow> wellformed (step H b x)"
  by (cases x)
     (simp_all add: wellformed_PutWithPrefetch wellformed_GetWithPrefetch
        wellformed_CheckForKnownPtr wellformed_DeletePermanent wellformed_DeleteTransient
        wellformed_DeleteKnownPtr SetCleanBytesCapacity_def)

lemma wellformed_run: "wellformed b \<Longrightarrow> wellformed (run H b xs)"
  by (induction xs arbitrary: b) (simp_all add: wellformed_step)

lemma NewBlockCacheStandard_eq:
  "NewBlockCacheStandard n c = Some (newCache n c)"
  by (simp add: NewBlockCacheStandard_def lru_New_def newCache_def)

lemma wellformed_New: "NewBlockCacheStandard n c = Some b \<Longrightarrow> wellformed b"
  by (auto simp: NewBlockCacheStandard_eq newCache_def wellformed_def lru_wf_def)

section \<open>What the stores hold after an operation\<close>

lemma GetWithPrefetch_result:
  "fst (GetWithPrefetch b ptr) =
     (case transientLookup b (ID ptr) of
        Some bc \<Rightarrow> Inr (block bc, hasPrefetched bc, TransientEntry)
      | None \<Rightarrow>
          (case permanentLookup b (ID ptr) of
             Some blk \<Rightarrow> Inr (blk, True, PermanentEntry)
           | None \<Rightarrow> Inl (NoSuchBlockError (ID ptr))))"
  by (auto simp: GetWithPrefetch_def transientLookup_def permanentLookup_def lru_Get_def
      split: option.splits prod.splits)

lemma Get_result:
  "fst (Get b ptr) =
     (case transientLookup b (ID ptr) of
        Some bc \<Rightarrow> Inr (block bc)
      | None \<Rightarrow>
          (case permanentLookup b (ID ptr) of
             Some blk \<Rightarrow> Inr blk
           | None \<Rightarrow> Inl (NoSuchBlockError (ID ptr))))"
  by (auto simp: Get_def GetWithPrefetch_def transientLookup_def permanentLookup_def lru_Get_def
      split: option.splits prod.splits)

lemma map_of_delete_other: "map_of (AList.delete k al) k' = (if k' = k then None else map_of al k')"
  by (simp add: AList.delete_conv)

lemma lru_Get_result [simp]: "fst (lru_Get k c) = map_of (lru_items c) k"
  by (simp add: lru_Get_def split: option.splits)

lemma lru_Get_lookup [simp]: "map_of (lru_items (snd (lru_Get k c))) k' = map_of (lru_items c) k'"
  by (auto simp: lru_Get_def map_of_delete_other split: option.splits)

lemma lru_Remove_lookup [simp]:
  "map_of (lru_items (fst (lru_Remove k c))) k' = (if k' = k then None else map_of (lru_items c) k')"
  by (auto simp: lru_Remove_def map_of_delete_other split: option.splits)

lemma lru_Add_lookup: "lru_wf c \<Longrightarrow> map_of (lru_items (fst (lru_Add k v c))) k = Some v"
  by (cases "lru_items c") (auto simp: lru_Add_def lru_wf_def split: option.splits)

lemma lru_Add_lookup_present:
  "map_of (lru_items c) k = Some old \<Longrightarrow> map_of (lru_items (fst (lru_Add k v c))) k = Some v"
  by (simp add: lru_Add_def)

lemma recordKnownPtr_frame [simp]:
  "ID (fst (recordKnownPtr H b ptr tlf blk)) = ID ptr"
  "cleanTransient (snd (recordKnownPtr H b ptr tlf blk)) = cleanTransient b"
  "cleanPermanent (snd (recordKnownPtr H b ptr tlf blk)) = cleanPermanent b"
  "cleanBytesCapacity (snd (recordKnownPtr H b ptr tlf blk)) = cleanBytesCapacity b"
  "cleanTotalBytes (snd (recordKnownPtr H b ptr tlf blk)) = cleanTotalBytes b"
  by (simp_all add: recordKnownPtr_def Let_def split: option.splits Block.splits)

lemma forgetKnownPtr_frame [simp]:
  "cleanTransient (forgetKnownPtr H b tlf blk) = cleanTransient b"
  "cleanPermanent (forgetKnownPtr H b tlf blk) = cleanPermanent b"
  "cleanBytesCapacity (forgetKnownPtr H b tlf blk) = cleanBytesCapacity b"
  "cleanTotalBytes (forgetKnownPtr H b tlf blk) = cleanTotalBytes b"
  by (simp_all add: forgetKnownPtr_def split: option.splits Block.splits)

lemma putMakeRoom_frame [simp]:
  "ids (snd (putMakeRoom b ptr blk lt hp w)) = ids b"
  "cleanPermanent (snd (putMakeRoom b ptr blk lt hp w)) = cleanPermanent b"
  "cleanBytesCapacity (snd (putMakeRoom b ptr blk lt hp w)) = cleanBytesCapacity b"
proof -
  obtain r b1 where mr: "makeRoomForSize (ucast (getCachedBlockSize blk)) lt b = (r, b1)"
    by (cases "makeRoomForSize (ucast (getCachedBlockSize blk)) lt b")
  have "ids b1 = ids b" "cleanPermanent b1 = cleanPermanent b"
       "cleanBytesCapacity b1 = cleanBytesCapacity b"
    using makeRoomForSize_frame[of "ucast (getCachedBlockSize blk)" lt b] mr by simp_all
  with mr show "ids (snd (putMakeRoom b ptr blk lt hp w)) = ids b"
    "cleanPermanent (snd (putMakeRoom b ptr blk lt hp w)) = cleanPermanent b"
    "cleanBytesCapacity (snd (putMakeRoom b ptr blk lt hp w)) = cleanBytesCapacity b"
    by (simp_all add: putMakeRoom_def)
qed

text \<open>A transient put changes \<open>ids\<close> only by recording the known pointer.\<close>

lemma PutWithPrefetch_transient_ids:
  "blockTypeCheck blk = None \<Longrightarrow>
   ids (snd (PutWithPrefetch H b ptr tlf blk TransientEntry hp)) =
   ids (snd (recordKnownPtr H b ptr tlf blk))"
  by (cases "recordKnownPtr H b ptr tlf blk")
     (auto simp: PutWithPrefetch_def split: option.splits prod.splits)

lemma PutWithPrefetch_transient_permanent:
  "cleanPermanent (snd (PutWithPrefetch H b ptr tlf blk TransientEntry hp)) = cleanPermanent b"
proof (cases "recordKnownPtr H b ptr tlf blk")
  case (Pair p1 b1)
  with recordKnownPtr_frame(3)[of H b ptr tlf blk] have "cleanPermanent b1 = cleanPermanent b"
    by simp
  with Pair show ?thesis
    by (auto simp: PutWithPrefetch_def split: option.splits prod.splits)
qed

lemma CheckForKnownPtr_result:
  "\<not> IsInd fb \<Longrightarrow>
   fst (CheckForKnownPtr H b tlf fb) =
     (case ids b of
        None \<Rightarrow> Inr zeroBlockPointer
      | Some c \<Rightarrow>
          (case map_of (lru_items c) (tlf, H (Contents fb)) of
             None \<Rightarrow> Inr zeroBlockPointer
           | Some p \<Rightarrow> Inr p))"
  by (auto simp: CheckForKnownPtr_def GetHash_def lru_Get_def split: option.splits)

lemma transientLookup_transientAdd:
  "wellformed b \<Longrightarrow> cleanTransient b \<noteq> None \<Longrightarrow> transientLookup (transientAdd k v b) k = Some v"
  by (auto simp: transientLookup_def wellformed_def lru_Add_lookup)

lemma transientLookup_transientAdd_present:
  "transientLookup b k = Some old \<Longrightarrow> transientLookup (transientAdd k v b) k = Some v"
  by (auto simp: transientLookup_def lru_Add_lookup_present split: option.splits)

text \<open>A transient put that returns no error leaves the block under the ID of the pointer.\<close>

lemma PutWithPrefetch_transient_resident:
  assumes wf: "wellformed b" and en: "cleanTransient b \<noteq> None"
    and ok: "fst (PutWithPrefetch H b ptr tlf blk TransientEntry hp) = None"
  shows "transientLookup (snd (PutWithPrefetch H b ptr tlf blk TransientEntry hp)) (ID ptr) =
         Some (blockContainer blk
           (hp \<or> (case transientLookup b (ID ptr) of None \<Rightarrow> False | Some bc \<Rightarrow> hasPrefetched bc)))"
proof -
  from ok have tc: "blockTypeCheck blk = None"
    by (auto simp: PutWithPrefetch_def split: option.splits)
  obtain p1 b1 where rk: "recordKnownPtr H b ptr tlf blk = (p1, b1)"
    by (cases "recordKnownPtr H b ptr tlf blk")
  from rk have p1: "ID p1 = ID ptr" and b1t: "cleanTransient b1 = cleanTransient b"
    using recordKnownPtr_frame(1,2)[of H b ptr tlf blk] by simp_all
  from rk wf have wf1: "wellformed b1"
    using wellformed_recordKnownPtr[of b H ptr tlf blk] by simp
  from en b1t obtain t where t: "cleanTransient b1 = Some t" by auto
  define t' where "t' = snd (lru_Get (ID ptr) t)"
  let ?b2 = "b1\<lparr>cleanTransient := Some t'\<rparr>"
  have wf2: "wellformed ?b2"
    unfolding t'_def by (rule wellformed_transient_Get[OF wf1 t])
  have look: "transientLookup b (ID ptr) = map_of (lru_items t) (ID ptr)"
    using t b1t by (simp add: transientLookup_def)
  show ?thesis
  proof (cases "map_of (lru_items t) (ID ptr)")
    case None
    then have g: "lru_Get (ID ptr) t = (None, t')"
      by (simp add: lru_Get_def t'_def)
    obtain r b3 where mr: "makeRoomForSize (ucast (getCachedBlockSize blk)) TransientEntry ?b2 = (r, b3)"
      by (cases "makeRoomForSize (ucast (getCachedBlockSize blk)) TransientEntry ?b2")
    have put: "PutWithPrefetch H b ptr tlf blk TransientEntry hp =
        putMakeRoom ?b2 p1 blk TransientEntry hp False"
      using tc rk t g p1 by (simp add: PutWithPrefetch_def)
    from wellformed_makeRoomForSize[OF wf2, of "ucast (getCachedBlockSize blk)" TransientEntry] mr
    have wf3: "wellformed b3" by simp
    from makeRoomForSize_transient_iff[of "ucast (getCachedBlockSize blk)" TransientEntry ?b2] mr
    have en3: "cleanTransient b3 \<noteq> None" by simp
    from ok put mr have r by (auto simp: putMakeRoom_def split: if_splits)
    with put mr p1 have "snd (PutWithPrefetch H b ptr tlf blk TransientEntry hp) =
        transientAdd (ID ptr) (blockContainer blk hp) b3"
      by (simp add: putMakeRoom_def)
    with transientLookup_transientAdd[OF wf3 en3] look None show ?thesis by simp
  next
    case (Some bc)
    then have g: "lru_Get (ID ptr) t = (Some bc, t')"
      by (simp add: lru_Get_def t'_def)
    have put: "PutWithPrefetch H b ptr tlf blk TransientEntry hp =
        putMakeRoom ?b2 p1 blk TransientEntry (hp \<or> hasPrefetched bc) True"
      using tc rk t g p1 by (simp add: PutWithPrefetch_def)
    have en2: "cleanTransient ?b2 \<noteq> None" by simp
    from put p1 have "snd (PutWithPrefetch H b ptr tlf blk TransientEntry hp) =
        transientAdd (ID ptr) (blockContainer blk (hp \<or> hasPrefetched bc)) ?b2"
      by (simp add: putMakeRoom_def)
    with transientLookup_transientAdd[OF wf2 en2] look Some show ?thesis by simp
  qed
qed

text \<open>A transient put of a cacheable block under an ID that is resident returns no error.\<close>

lemma PutWithPrefetch_transient_reput_ok:
  assumes res: "transientLookup b (ID ptr) = Some bc0" and tc: "blockTypeCheck blk = None"
  shows "fst (PutWithPrefetch H b ptr tlf blk TransientEntry hp) = None"
proof -
  obtain p1 b1 where rk: "recordKnownPtr H b ptr tlf blk = (p1, b1)"
    by (cases "recordKnownPtr H b ptr tlf blk")
  from rk have p1: "ID p1 = ID ptr" and b1t: "cleanTransient b1 = cleanTransient b"
    using recordKnownPtr_frame(1,2)[of H b ptr tlf blk] by simp_all
  from res b1t obtain t where t: "cleanTransient b1 = Some t"
    and m: "map_of (lru_items t) (ID ptr) = Some bc0"
    by (auto simp: transientLookup_def split: option.splits)
  then obtain t' where g: "lru_Get (ID ptr) t = (Some bc0, t')"
    by (simp add: lru_Get_def)
  show ?thesis
    using tc rk t g p1 by (simp add: PutWithPrefetch_def putMakeRoom_def)
qed

lemma DeleteTransient_fst [simp]: "fst (DeleteTransient H b ptr tlf) = None"
  by (simp add: DeleteTransient_def split: option.splits prod.splits)

lemma DeleteTransient_permanent [simp]:
  "cleanPermanent (snd (DeleteTransient H b ptr tlf)) = cleanPermanent b"
  by (simp add: DeleteTransient_def split: option.splits prod.splits)

lemma DeleteTransient_lookup:
  "transientLookup (snd (DeleteTransient H b ptr tlf)) (ID ptr) = None"
proof (cases "cleanTransient b")
  case None
  then show ?thesis by (simp add: DeleteTransient_def transientLookup_def)
next
  case (Some t)
  show ?thesis
  proof (cases "map_of (lru_items t) (ID ptr)")
    case None
    with Some show ?thesis
      by (simp add: DeleteTransient_def transientLookup_def lru_Get_def)
  next
    case (Some bc)
    with \<open>cleanTransient b = Some t\<close> show ?thesis
      by (simp add: DeleteTransient_def transientLookup_def lru_Get_def map_of_delete_other)
  qed
qed

lemma DeleteTransient_ids:
  "transientLookup b (ID ptr) = Some bc \<Longrightarrow>
   ids (snd (DeleteTransient H b ptr tlf)) = ids (forgetKnownPtr H b tlf (block bc))"
  by (auto simp: transientLookup_def DeleteTransient_def lru_Get_def forgetKnownPtr_def
      split: option.splits Block.splits)

lemma forgetKnownPtr_lookup:
  "\<not> IsInd fb \<Longrightarrow> knownPtrLookup (forgetKnownPtr H b tlf (FileBlk fb)) (tlf, H (Contents fb)) = None"
  by (simp add: knownPtrLookup_def forgetKnownPtr_def split: option.splits)

lemma CheckForKnownPtr_knownPtrLookup:
  "\<not> IsInd fb \<Longrightarrow>
   fst (CheckForKnownPtr H b tlf fb) =
     (case knownPtrLookup b (tlf, H (Contents fb)) of None \<Rightarrow> Inr zeroBlockPointer | Some p \<Rightarrow> Inr p)"
  by (simp add: CheckForKnownPtr_result knownPtrLookup_def split: option.splits)

lemma word_sub_saturating:
  fixes t s :: "64 word"
  shows "unat s \<le> unat t \<Longrightarrow> s \<le> t \<and> unat (t - s) = unat t - unat s"
  by (simp add: word_le_nat_alt unat_sub)

lemma cachedSize_ucast [simp]:
  "unat (ucast (getCachedBlockSize blk) :: 64 word) = cachedSize blk"
  by (simp add: cachedSize_def unsigned_ucast_eq take_bit_nat_eq_self unsigned_less[of "getCachedBlockSize blk", THEN less_trans])

lemma permanentLookup_le_permanentBytes:
  "permanentLookup b key = Some blk \<Longrightarrow> cachedSize blk \<le> permanentBytes b"
proof -
  have "map_of al key = Some blk \<Longrightarrow> cachedSize blk \<le> sum_list (map (\<lambda>kv. cachedSize (snd kv)) al)"
    for al :: "(nat \<times> Block) list"
    by (induction al) (auto split: if_splits)
  then show "permanentLookup b key = Some blk \<Longrightarrow> cachedSize blk \<le> permanentBytes b"
    by (simp add: permanentLookup_def permanentBytes_def)
qed





lemma PutWithPrefetch_permanent_ok:
  "blockTypeCheck blk = None \<Longrightarrow>
   fst (PutWithPrefetch H b ptr tlf blk PermanentEntry hp) = None \<and>
   permanentLookup (snd (PutWithPrefetch H b ptr tlf blk PermanentEntry hp)) (ID ptr) = Some blk"
proof -
  assume tc: "blockTypeCheck blk = None"
  have "fst (putMakeRoom b' ptr blk PermanentEntry hp w) = None" for b' :: "'a BlockCacheStandard" and w
    by (simp add: putMakeRoom_def split: prod.splits)
  with tc show ?thesis
    by (simp add: PutWithPrefetch_def permanentLookup_def AList.update_conv')
qed

text \<open>The bytes after a permanent put.\<close>

lemma PutWithPrefetch_permanent_bytes:
  assumes tc: "blockTypeCheck blk = None"
  shows "cleanTotalBytes (snd (PutWithPrefetch H b ptr tlf blk PermanentEntry hp)) =
     (if cleanTransient b = None \<or> permanentLookup b (ID ptr) \<noteq> None then cleanTotalBytes b
      else cleanTotalBytes
             (makeRoomLoop (transientLen b + 1) (ucast (getCachedBlockSize blk))
                (GetCleanBytesCapacity b)
                (b\<lparr>cleanPermanent := AList.update (ID ptr) blk (cleanPermanent b)\<rparr>))
           + ucast (getCachedBlockSize blk))"
  using tc
  by (auto simp: PutWithPrefetch_def putMakeRoom_def permanentLookup_def makeRoomForSize_def
      Let_def transientLen_def GetCleanBytesCapacity_def split: prod.splits option.splits)

lemma makeRoomLoop_empty:
  "transientLen b = 0 \<Longrightarrow> makeRoomLoop oldLen sz cap b = b"
proof (cases "cleanTotalBytes b + sz > cap \<and> oldLen \<noteq> transientLen b")
  case False
  then show ?thesis by (auto simp: makeRoomLoop.simps[of oldLen])
next
  case True
  assume e: "transientLen b = 0"
  then have ro: "transientRemoveOldest b = b"
    by (auto simp: transientLen_def transientRemoveOldest_def lru_RemoveOldest_def lru_Len_def
        evicted_def split: option.splits)
  from True have "makeRoomLoop oldLen sz cap b = makeRoomLoop (transientLen b) sz cap b"
    by (simp add: makeRoomLoop.simps[of oldLen] ro)
  also have "\<dots> = b"
    by (simp add: makeRoomLoop.simps[of "transientLen b"])
  finally show ?thesis .
qed

section \<open>Byte accounting\<close>

lemma sum_list_delete:
  fixes f :: "'k \<times> 'v \<Rightarrow> nat"
  shows "distinct (map fst al) \<Longrightarrow> map_of al k = Some v \<Longrightarrow>
   sum_list (map f al) = f (k, v) + sum_list (map f (AList.delete k al))"
proof (induction al)
  case Nil
  then show ?case by simp
next
  case (Cons a al)
  show ?case
  proof (cases "fst a = k")
    case True
    with Cons.prems have "a = (k, v)" by (cases a) simp
    moreover from True Cons.prems have "k \<notin> fst ` set al" by simp
    then have "AList.delete k al = al"
      by (force simp: AList.delete_eq filter_id_conv)
    ultimately show ?thesis by (simp add: AList.delete_eq)
  next
    case False
    with Cons show ?thesis by (cases a) (simp add: AList.delete_eq)
  qed
qed

lemma sum_list_butlast:
  fixes f :: "'a \<Rightarrow> nat"
  shows "xs \<noteq> [] \<Longrightarrow> sum_list (map f xs) = sum_list (map f (butlast xs)) + f (last xs)"
  by (induction xs) auto

lemma sum_list_update_absent:
  fixes f :: "'k \<times> 'v \<Rightarrow> nat"
  shows "map_of al k = None \<Longrightarrow> sum_list (map f (AList.update k v al)) = sum_list (map f al) + f (k, v)"
  by (induction al) (auto split: if_splits)

lemma sum_list_update_present:
  fixes f :: "'k \<times> 'v \<Rightarrow> nat"
  shows "map_of al k = Some old \<Longrightarrow>
   sum_list (map f (AList.update k v al)) + f (k, old) = sum_list (map f al) + f (k, v)"
  by (induction al) (auto split: if_splits)

lemma subtractBlockBytes_unat:
  "cachedSize blk \<le> unat (cleanTotalBytes b) \<Longrightarrow>
   unat (cleanTotalBytes (subtractBlockBytes b blk)) = unat (cleanTotalBytes b) - cachedSize blk"
  using word_sub_saturating[of "ucast (getCachedBlockSize blk)" "cleanTotalBytes b"]
  by (simp add: subtractBlockBytes_def Let_def)

lemma accounted_charged: "accounted b = charged b (permanentBytes b)"
  by (simp add: accounted_def charged_def residentBytes_def)

lemma charged_transientRemoveOldest:
  assumes "charged b m"
  shows "charged (transientRemoveOldest b) m \<and> transientBytes (transientRemoveOldest b) \<le> transientBytes b"
proof (cases "cleanTransient b")
  case None
  with assms show ?thesis by (simp add: transientRemoveOldest_def)
next
  case (Some t)
  show ?thesis
  proof (cases "lru_items t = []")
    case True
    with Some assms show ?thesis
      by (simp add: transientRemoveOldest_def lru_RemoveOldest_def evicted_def charged_def
          transientBytes_def)
  next
    case False
    let ?f = "\<lambda>kv::nat \<times> blockContainer. cachedSize (block (snd kv))"
    from sum_list_butlast[OF False, of ?f]
    have s: "sum_list (map ?f (lru_items t)) = sum_list (map ?f (butlast (lru_items t))) + ?f (last (lru_items t))" .
    with assms Some have le: "cachedSize (block (snd (last (lru_items t)))) \<le> unat (cleanTotalBytes b)"
      by (simp add: charged_def transientBytes_def)
    obtain k bc where l: "last (lru_items t) = (k, bc)" by (cases "last (lru_items t)")
    from Some False l le s assms show ?thesis
      by (simp add: transientRemoveOldest_def lru_RemoveOldest_def evicted_def onEvict_def
          charged_def transientBytes_def subtractBlockBytes_unat)
  qed
qed

lemma transientBytes_bytes_update [simp]:
  "transientBytes (b\<lparr>cleanTotalBytes := n\<rparr>) = transientBytes b"
  "permanentBytes (b\<lparr>cleanTotalBytes := n\<rparr>) = permanentBytes b"
  by (simp_all add: transientBytes_def permanentBytes_def)

lemma charged_makeRoomLoop:
  assumes "charged b m"
  shows "charged (makeRoomLoop oldLen sz cap b) m \<and>
         transientBytes (makeRoomLoop oldLen sz cap b) \<le> transientBytes b"
proof -
  have "(\<lambda>x. charged x m \<and> transientBytes x \<le> transientBytes b) (makeRoomLoop oldLen sz cap b)"
  proof (rule makeRoomLoop_preserves)
    fix x :: "'a BlockCacheStandard"
    assume "charged x m \<and> transientBytes x \<le> transientBytes b"
    with charged_transientRemoveOldest[of x m]
    show "charged (transientRemoveOldest x) m \<and> transientBytes (transientRemoveOldest x) \<le> transientBytes b"
      by auto
  next
    from assms show "charged b m \<and> transientBytes b \<le> transientBytes b" by simp
  qed
  then show ?thesis .
qed

lemma word_add_no_overflow:
  fixes t s :: "64 word"
  shows "unat t + unat s < 2 ^ 64 \<Longrightarrow> unat (t + s) = unat t + unat s"
  using unat_add_lem[of t s] by simp

lemma charged_makeRoomForSize:
  assumes ch: "charged b m" and en: "cleanTransient b \<noteq> None"
    and no: "transientBytes b + m + unat sz < 2 ^ 64"
  shows "charged (snd (makeRoomForSize sz lt b))
           (if fst (makeRoomForSize sz lt b) \<or> lt = PermanentEntry then m + unat sz else m)"
proof -
  from en obtain t where t: "cleanTransient b = Some t" by auto
  let ?b1 = "makeRoomLoop (lru_Len t + 1) sz (GetCleanBytesCapacity b) b"
  from charged_makeRoomLoop[OF ch, of "lru_Len t + 1" sz "GetCleanBytesCapacity b"]
  have c1: "charged ?b1 m" and le: "transientBytes ?b1 \<le> transientBytes b" by simp_all
  from c1 le no have "unat (cleanTotalBytes ?b1) + unat sz < 2 ^ 64"
    by (simp add: charged_def)
  from word_add_no_overflow[OF this] c1
  have "charged (?b1\<lparr>cleanTotalBytes := cleanTotalBytes ?b1 + sz\<rparr>) (m + unat sz)"
    by (simp add: charged_def)
  with c1 t show ?thesis
    by (simp add: makeRoomForSize_def Let_def)
qed

lemma bytes_ids_update [simp]:
  "transientBytes (b\<lparr>ids := i\<rparr>) = transientBytes b"
  "permanentBytes (b\<lparr>ids := i\<rparr>) = permanentBytes b"
  "permanentBytes (b\<lparr>cleanTransient := x\<rparr>) = permanentBytes b"
  "transientBytes (b\<lparr>cleanPermanent := p\<rparr>) = transientBytes b"
  "transientBytes (b\<lparr>cleanBytesCapacity := c\<rparr>) = transientBytes b"
  "permanentBytes (b\<lparr>cleanBytesCapacity := c\<rparr>) = permanentBytes b"
  by (simp_all add: transientBytes_def permanentBytes_def)

lemma charged_update [simp]:
  "charged (b\<lparr>ids := i\<rparr>) m = charged b m"
  "charged (b\<lparr>cleanPermanent := p\<rparr>) m = charged b m"
  "charged (b\<lparr>cleanBytesCapacity := c\<rparr>) m = charged b m"
  by (simp_all add: charged_def)

lemma transientBytes_Get:
  assumes "lru_wf t" "cleanTransient b = Some t"
  shows "transientBytes (b\<lparr>cleanTransient := Some (snd (lru_Get k t))\<rparr>) = transientBytes b"
proof (cases "map_of (lru_items t) k")
  case None
  with assms show ?thesis by (simp add: transientBytes_def lru_Get_def)
next
  case (Some v)
  from assms(1) have "distinct (map fst (lru_items t))" by (simp add: lru_wf_def)
  from sum_list_delete[OF this Some, of "\<lambda>kv. cachedSize (block (snd kv))"] Some assms(2)
  show ?thesis by (simp add: transientBytes_def lru_Get_def)
qed

lemma charged_Get:
  "wellformed b \<Longrightarrow> cleanTransient b = Some t \<Longrightarrow>
   charged (b\<lparr>cleanTransient := Some (snd (lru_Get k t))\<rparr>) m = charged b m"
  using transientBytes_Get[of t b k] by (simp add: charged_def wellformed_def)

lemma charged_transientRemove:
  assumes ch: "charged b m" and wf: "wellformed b"
  shows "charged (transientRemove k b) m"
proof (cases "cleanTransient b")
  case None
  with ch show ?thesis by (simp add: transientRemove_def)
next
  case (Some t)
  show ?thesis
  proof (cases "map_of (lru_items t) k")
    case None
    with Some ch show ?thesis
      by (simp add: transientRemove_def lru_Remove_def evicted_def charged_def transientBytes_def)
  next
    case (Some bc)
    from wf \<open>cleanTransient b = Some t\<close> have "distinct (map fst (lru_items t))"
      by (simp add: wellformed_def lru_wf_def)
    from sum_list_delete[OF this Some, of "\<lambda>kv. cachedSize (block (snd kv))"]
    have s: "transientBytes b =
        cachedSize (block bc) + sum_list (map (\<lambda>kv. cachedSize (block (snd kv))) (AList.delete k (lru_items t)))"
      using \<open>cleanTransient b = Some t\<close> by (simp add: transientBytes_def)
    with ch have "cachedSize (block bc) \<le> unat (cleanTotalBytes b)"
      by (simp add: charged_def)
    with s ch Some \<open>cleanTransient b = Some t\<close> show ?thesis
      by (simp add: transientRemove_def lru_Remove_def evicted_def onEvict_def charged_def
          subtractBlockBytes_unat transientBytes_def)
  qed
qed

lemma charged_transientAdd_absent:
  assumes ch: "charged b (m + cachedSize (block bc))" and wf: "wellformed b"
    and ab: "transientLookup b k = None" and en: "cleanTransient b \<noteq> None"
  shows "charged (transientAdd k bc b) m"
proof -
  from en obtain t where t: "cleanTransient b = Some t" by auto
  with ab have none: "map_of (lru_items t) k = None" by (simp add: transientLookup_def)
  from wf t have twf: "lru_wf t" by (simp add: wellformed_def)
  show ?thesis
  proof (cases "length (lru_items t) + 1 > lru_size t")
    case False
    with t none ch show ?thesis
      by (simp add: transientAdd_def lru_Add_def evicted_def charged_def transientBytes_def)
  next
    case True
    with twf have ne: "lru_items t \<noteq> []" by (auto simp: lru_wf_def)
    let ?f = "\<lambda>kv::nat \<times> blockContainer. cachedSize (block (snd kv))"
    from sum_list_butlast[OF ne, of ?f]
    have s: "sum_list (map ?f (lru_items t)) =
             sum_list (map ?f (butlast (lru_items t))) + ?f (last (lru_items t))" .
    obtain k' bc' where l: "last (lru_items t) = (k', bc')" by (cases "last (lru_items t)")
    from s l ch t have le: "cachedSize (block bc') \<le> unat (cleanTotalBytes b)"
      by (simp add: charged_def transientBytes_def)
    from True t none ne l s ch le show ?thesis
      by (simp add: transientAdd_def lru_Add_def evicted_def onEvict_def charged_def
          transientBytes_def subtractBlockBytes_unat)
  qed
qed

lemma charged_transientAdd_present:
  assumes ch: "charged b m" and wf: "wellformed b"
    and pr: "transientLookup b k = Some old"
    and same: "cachedSize (block old) = cachedSize (block bc)"
  shows "charged (transientAdd k bc b) m"
proof -
  from pr obtain t where t: "cleanTransient b = Some t" and m: "map_of (lru_items t) k = Some old"
    by (auto simp: transientLookup_def split: option.splits)
  from wf t have "distinct (map fst (lru_items t))" by (simp add: wellformed_def lru_wf_def)
  from sum_list_delete[OF this m, of "\<lambda>kv. cachedSize (block (snd kv))"] t m ch same
  show ?thesis
    by (simp add: transientAdd_def lru_Add_def evicted_def charged_def transientBytes_def)
qed

text \<open>Eviction never adds an entry.\<close>

lemma map_of_butlast_None: "map_of xs k = None \<Longrightarrow> map_of (butlast xs) k = None"
  by (induction xs) (auto split: if_splits)

lemma transientLookup_transientRemoveOldest_None:
  "transientLookup b k = None \<Longrightarrow> transientLookup (transientRemoveOldest b) k = None"
  by (auto simp: transientLookup_def lru_RemoveOldest_def map_of_butlast_None split: option.splits)

lemma transientLookup_makeRoomLoop_None:
  "transientLookup b k = None \<Longrightarrow> transientLookup (makeRoomLoop oldLen sz cap b) k = None"
  by (rule makeRoomLoop_preserves[where P = "\<lambda>x. transientLookup x k = None"])
     (simp_all add: transientLookup_transientRemoveOldest_None)

lemma transientLookup_bytes_update [simp]:
  "transientLookup (b\<lparr>cleanTotalBytes := n\<rparr>) k = transientLookup b k"
  by (simp add: transientLookup_def)

lemma transientLookup_makeRoomForSize_None:
  "transientLookup b k = None \<Longrightarrow> transientLookup (snd (makeRoomForSize sz lt b)) k = None"
  by (simp add: makeRoomForSize_def Let_def transientLookup_makeRoomLoop_None split: option.splits)

lemma accounted_PutWithPrefetch_transient:
  assumes wf: "wellformed b" and en: "cleanTransient b \<noteq> None" and acc: "accounted b"
    and keep: "putKeepsSize b ptr blk TransientEntry"
    and no: "residentBytes b + cachedSize blk < 2 ^ 64"
  shows "accounted (snd (PutWithPrefetch H b ptr tlf blk TransientEntry hp))"
proof (cases "blockTypeCheck blk")
  case (Some e)
  with acc show ?thesis by (simp add: PutWithPrefetch_def)
next
  case None
  obtain p1 b1 where rk: "recordKnownPtr H b ptr tlf blk = (p1, b1)"
    by (cases "recordKnownPtr H b ptr tlf blk")
  from rk have p1: "ID p1 = ID ptr" and b1t: "cleanTransient b1 = cleanTransient b"
    and b1p: "cleanPermanent b1 = cleanPermanent b" and b1n: "cleanTotalBytes b1 = cleanTotalBytes b"
    using recordKnownPtr_frame[of H b ptr tlf blk] by simp_all
  from rk wf have wf1: "wellformed b1"
    using wellformed_recordKnownPtr[of b H ptr tlf blk] by simp
  define m where "m = permanentBytes b"
  from acc b1t b1p b1n have ch1: "charged b1 m"
    by (simp add: accounted_charged charged_def transientBytes_def permanentBytes_def m_def)
  from b1t b1p have tb1: "transientBytes b1 = transientBytes b"
    by (simp add: transientBytes_def)
  from en b1t obtain t where t: "cleanTransient b1 = Some t" by auto
  define t' where "t' = snd (lru_Get (ID ptr) t)"
  let ?b2 = "b1\<lparr>cleanTransient := Some t'\<rparr>"
  have wf2: "wellformed ?b2"
    unfolding t'_def by (rule wellformed_transient_Get[OF wf1 t])
  have ch2: "charged ?b2 m"
    unfolding t'_def using charged_Get[OF wf1 t, of "ID ptr" m] ch1 by simp
  have tb2: "transientBytes ?b2 = transientBytes b"
    unfolding t'_def using transientBytes_Get[of t b1 "ID ptr"] wf1 t tb1
    by (simp add: wellformed_def)
  have look: "transientLookup ?b2 (ID ptr) = transientLookup b (ID ptr)"
    using t b1t by (simp add: transientLookup_def t'_def)
  have look': "transientLookup b (ID ptr) = map_of (lru_items t) (ID ptr)"
    using t b1t by (simp add: transientLookup_def)
  have accI: "accounted x" if "charged x m" "cleanPermanent x = cleanPermanent b"
    for x :: "'a BlockCacheStandard"
    using that by (simp add: accounted_charged permanentBytes_def m_def)
  show ?thesis
  proof (cases "map_of (lru_items t) (ID ptr)")
    case None': None
    then have g: "lru_Get (ID ptr) t = (None, t')"
      by (simp add: lru_Get_def t'_def)
    have put: "PutWithPrefetch H b ptr tlf blk TransientEntry hp =
        putMakeRoom ?b2 p1 blk TransientEntry hp False"
      using None rk t g p1 by (simp add: PutWithPrefetch_def)
    let ?sz = "ucast (getCachedBlockSize blk) :: 64 word"
    obtain r b3 where mr: "makeRoomForSize ?sz TransientEntry ?b2 = (r, b3)"
      by (cases "makeRoomForSize ?sz TransientEntry ?b2")
    from wellformed_makeRoomForSize[OF wf2, of ?sz TransientEntry] mr
    have wf3: "wellformed b3" by simp
    from makeRoomForSize_transient_iff[of ?sz TransientEntry ?b2] mr
    have en3: "cleanTransient b3 \<noteq> None" by simp
    from makeRoomForSize_frame(2)[of ?sz TransientEntry ?b2] mr b1p
    have p3: "cleanPermanent b3 = cleanPermanent b" by simp
    from no tb2 have "transientBytes ?b2 + m + unat ?sz < 2 ^ 64"
      by (simp add: residentBytes_def m_def)
    from charged_makeRoomForSize[OF ch2 _ this, of TransientEntry] mr
    have ch3: "charged b3 (if r then m + cachedSize blk else m)" by (cases r) simp_all
    from transientLookup_makeRoomForSize_None[of ?b2 "ID ptr" ?sz TransientEntry] look look' None' mr
    have l3: "transientLookup b3 (ID ptr) = None" by simp
    show ?thesis
    proof (cases r)
      case True
      with ch3 have "charged b3 (m + cachedSize (block (blockContainer blk hp)))" by simp
      from charged_transientAdd_absent[OF this wf3 l3 en3] p3
      have "accounted (transientAdd (ID ptr) (blockContainer blk hp) b3)"
        by (intro accI) simp_all
      with put mr True p1 show ?thesis by (simp add: putMakeRoom_def)
    next
      case False
      with ch3 p3 have "accounted b3" by (intro accI) simp_all
      with put mr False show ?thesis by (simp add: putMakeRoom_def)
    qed
  next
    case (Some bc)
    then have g: "lru_Get (ID ptr) t = (Some bc, t')"
      by (simp add: lru_Get_def t'_def)
    have put: "PutWithPrefetch H b ptr tlf blk TransientEntry hp =
        putMakeRoom ?b2 p1 blk TransientEntry (hp \<or> hasPrefetched bc) True"
      using None rk t g p1 by (simp add: PutWithPrefetch_def)
    from keep look' Some have same: "cachedSize (block bc) = cachedSize blk"
      by (simp add: putKeepsSize_def)
    from look look' Some have l2: "transientLookup ?b2 (ID ptr) = Some bc" by simp
    from charged_transientAdd_present[OF ch2 wf2 l2, of "blockContainer blk (hp \<or> hasPrefetched bc)"] same b1p
    have "accounted (transientAdd (ID ptr) (blockContainer blk (hp \<or> hasPrefetched bc)) ?b2)"
      by (intro accI) simp_all
    with put p1 show ?thesis by (simp add: putMakeRoom_def)
  qed
qed

lemma accounted_PutWithPrefetch_permanent:
  assumes wf: "wellformed b" and en: "cleanTransient b \<noteq> None" and acc: "accounted b"
    and keep: "putKeepsSize b ptr blk PermanentEntry"
    and no: "residentBytes b + cachedSize blk < 2 ^ 64"
  shows "accounted (snd (PutWithPrefetch H b ptr tlf blk PermanentEntry hp))"
proof (cases "blockTypeCheck blk")
  case (Some e)
  with acc show ?thesis by (simp add: PutWithPrefetch_def)
next
  case None
  let ?b0 = "b\<lparr>cleanPermanent := AList.update (ID ptr) blk (cleanPermanent b)\<rparr>"
  let ?f = "\<lambda>kv::nat \<times> Block. cachedSize (snd kv)"
  show ?thesis
  proof (cases "map_of (cleanPermanent b) (ID ptr)")
    case (Some old)
    with keep have "cachedSize old = cachedSize blk"
      by (simp add: putKeepsSize_def permanentLookup_def)
    with sum_list_update_present[OF Some, of ?f blk]
    have "permanentBytes ?b0 = permanentBytes b" by (simp add: permanentBytes_def)
    with acc have "accounted ?b0" by (simp add: accounted_charged)
    with None Some show ?thesis by (simp add: PutWithPrefetch_def putMakeRoom_def)
  next
    case None': None
    from sum_list_update_absent[OF None', of ?f blk]
    have pb: "permanentBytes ?b0 = permanentBytes b + cachedSize blk"
      by (simp add: permanentBytes_def)
    let ?sz = "ucast (getCachedBlockSize blk) :: 64 word"
    from acc have ch0: "charged ?b0 (permanentBytes b)" by (simp add: accounted_charged)
    from en have en0: "cleanTransient ?b0 \<noteq> None" by simp
    from no have "transientBytes ?b0 + permanentBytes b + unat ?sz < 2 ^ 64"
      by (simp add: residentBytes_def)
    from charged_makeRoomForSize[OF ch0 en0 this, of PermanentEntry]
    have "charged (snd (makeRoomForSize ?sz PermanentEntry ?b0)) (permanentBytes b + cachedSize blk)"
      by simp
    with pb have "accounted (snd (makeRoomForSize ?sz PermanentEntry ?b0))"
      by (simp add: accounted_charged permanentBytes_def)
    with None None' show ?thesis
      by (cases "makeRoomForSize ?sz PermanentEntry ?b0")
         (simp add: PutWithPrefetch_def putMakeRoom_def)
  qed
qed

lemma accounted_PutWithPrefetch:
  assumes "wellformed b" "cleanTransient b \<noteq> None" "accounted b"
    "opAdmissible b (OpPut ptr tlf blk lt hp)"
  shows "accounted (snd (PutWithPrefetch H b ptr tlf blk lt hp))"
proof (cases lt)
  case TransientEntry
  with assms accounted_PutWithPrefetch_transient[of b ptr blk H tlf hp] show ?thesis by simp
next
  case PermanentEntry
  with assms accounted_PutWithPrefetch_permanent[of b ptr blk H tlf hp] show ?thesis by simp
qed (use assms in \<open>simp_all add: PutWithPrefetch_def split: option.splits\<close>)

lemma accounted_GetWithPrefetch:
  "wellformed b \<Longrightarrow> accounted b \<Longrightarrow> accounted (snd (GetWithPrefetch b ptr))"
proof (cases "cleanTransient b")
  case None
  assume "accounted b"
  with None show ?thesis by (simp add: GetWithPrefetch_def split: option.splits)
next
  case (Some t)
  assume "wellformed b" "accounted b"
  with charged_Get[OF \<open>wellformed b\<close> Some, of "ID ptr" "permanentBytes b"]
  have "accounted (b\<lparr>cleanTransient := Some (snd (lru_Get (ID ptr) t))\<rparr>)"
    by (simp add: accounted_charged)
  with Some show ?thesis
    by (cases "lru_Get (ID ptr) t") (simp add: GetWithPrefetch_def split: option.splits)
qed

lemma accounted_ids_update [simp]: "accounted (b\<lparr>ids := i\<rparr>) = accounted b"
  by (simp add: accounted_charged)

lemma accounted_capacity_update [simp]: "accounted (b\<lparr>cleanBytesCapacity := c\<rparr>) = accounted b"
  by (simp add: accounted_charged)

lemma accounted_DeletePermanent:
  assumes wf: "wellformed b" and acc: "accounted b"
  shows "accounted (snd (DeletePermanent b key))"
proof (cases "map_of (cleanPermanent b) key")
  case None
  with acc show ?thesis by (simp add: DeletePermanent_def)
next
  case (Some blk)
  from wf have "distinct (map fst (cleanPermanent b))" by (simp add: wellformed_def)
  from sum_list_delete[OF this Some, of "\<lambda>kv. cachedSize (snd kv)"]
  have s: "permanentBytes b = cachedSize blk + permanentBytes (b\<lparr>cleanPermanent := AList.delete key (cleanPermanent b)\<rparr>)"
    by (simp add: permanentBytes_def)
  with acc have "cachedSize blk \<le> unat (cleanTotalBytes b)"
    by (simp add: accounted_def residentBytes_def)
  with s acc Some show ?thesis
    by (simp add: DeletePermanent_def accounted_def residentBytes_def subtractBlockBytes_unat
        transientBytes_def permanentBytes_def)
qed

lemma accounted_DeleteTransient:
  assumes wf: "wellformed b" and acc: "accounted b"
  shows "accounted (snd (DeleteTransient H b ptr tlf))"
proof (cases "cleanTransient b")
  case None
  with acc show ?thesis by (simp add: DeleteTransient_def)
next
  case (Some t)
  define t' where "t' = snd (lru_Get (ID ptr) t)"
  let ?b1 = "b\<lparr>cleanTransient := Some t'\<rparr>"
  have wf1: "wellformed ?b1" unfolding t'_def by (rule wellformed_transient_Get[OF wf Some])
  have ch1: "charged ?b1 (permanentBytes b)"
    unfolding t'_def using charged_Get[OF wf Some, of "ID ptr" "permanentBytes b"] acc
    by (simp add: accounted_charged)
  show ?thesis
  proof (cases "map_of (lru_items t) (ID ptr)")
    case None
    then have "lru_Get (ID ptr) t = (None, t')" by (simp add: lru_Get_def t'_def)
    with Some ch1 show ?thesis
      by (simp add: DeleteTransient_def accounted_charged)
  next
    case (Some bc)
    then have g: "lru_Get (ID ptr) t = (Some bc, t')" by (simp add: lru_Get_def t'_def)
    let ?b2 = "forgetKnownPtr H ?b1 tlf (block bc)"
    have wf2: "wellformed ?b2" by (rule wellformed_forgetKnownPtr[OF wf1])
    have tb: "transientBytes ?b2 = transientBytes ?b1"
      by (simp add: transientBytes_def)
    with ch1 have ch2: "charged ?b2 (permanentBytes b)" by (simp add: charged_def)
    from charged_transientRemove[OF ch2 wf2, of "ID ptr"]
    have "accounted (transientRemove (ID ptr) ?b2)"
      by (simp add: accounted_charged permanentBytes_def)
    with \<open>cleanTransient b = Some t\<close> g show ?thesis
      by (simp add: DeleteTransient_def)
  qed
qed

lemma accounted_step:
  assumes "wellformed b" "cleanTransient b \<noteq> None" "accounted b" "opAdmissible b x"
  shows "accounted (step H b x)"
proof (cases x)
  case (OpPut ptr tlf blk lt hp)
  with assms accounted_PutWithPrefetch[of b ptr tlf blk lt hp H] show ?thesis by simp
next
  case (OpGet ptr)
  with assms show ?thesis by (simp add: accounted_GetWithPrefetch)
next
  case (OpCheckForKnownPtr tlf fb)
  with assms show ?thesis
    by (simp add: CheckForKnownPtr_def split: option.splits prod.splits)
next
  case (OpSetCleanBytesCapacity c)
  with assms show ?thesis by (simp add: SetCleanBytesCapacity_def)
next
  case (OpDeletePermanent key)
  with assms show ?thesis by (simp add: accounted_DeletePermanent)
next
  case (OpDeleteTransient ptr tlf)
  with assms show ?thesis by (simp add: accounted_DeleteTransient)
next
  case (OpDeleteKnownPtr tlf fb)
  with assms show ?thesis
    by (simp add: DeleteKnownPtr_def split: option.splits)
qed

text \<open>No operation creates or drops the transient store.\<close>

lemma transient_enabled_step:
  "(cleanTransient (step H b x) = None) = (cleanTransient b = None)"
proof (cases x)
  case (OpPut ptr tlf blk lt hp)
  have pm: "(cleanTransient (snd (putMakeRoom b' p blk lt' h w)) = None) = (cleanTransient b' = None)"
    for b' :: "'a BlockCacheStandard" and p lt' h w
  proof -
    obtain r b3 where mr: "makeRoomForSize (ucast (getCachedBlockSize blk)) lt' b' = (r, b3)"
      by (cases "makeRoomForSize (ucast (getCachedBlockSize blk)) lt' b'")
    with makeRoomForSize_transient_iff[of "ucast (getCachedBlockSize blk)" lt' b']
    have "(cleanTransient b3 = None) = (cleanTransient b' = None)" by simp
    with mr show ?thesis by (auto simp: putMakeRoom_def)
  qed
  obtain p1 b1 where rk: "recordKnownPtr H b ptr tlf blk = (p1, b1)"
    by (cases "recordKnownPtr H b ptr tlf blk")
  with recordKnownPtr_frame(2)[of H b ptr tlf blk] have b1: "cleanTransient b1 = cleanTransient b"
    by simp
  show ?thesis
  proof (cases "blockTypeCheck blk")
    case (Some e)
    with OpPut show ?thesis by (simp add: PutWithPrefetch_def)
  next
    case None
    show ?thesis
    proof (cases lt)
      case TransientEntry
      show ?thesis
      proof (cases "cleanTransient b1")
        case None': None
        with OpPut None TransientEntry rk b1 show ?thesis by (simp add: PutWithPrefetch_def)
      next
        case (Some t)
        obtain r t' where g: "lru_Get (ID p1) t = (r, t')" by (cases "lru_Get (ID p1) t")
        have "cleanTransient (snd (putMakeRoom (b1\<lparr>cleanTransient := Some t'\<rparr>) p1 blk
                 TransientEntry h w)) \<noteq> None" for h w
          using pm[of "b1\<lparr>cleanTransient := Some t'\<rparr>" p1 TransientEntry h w] by simp
        moreover from b1 Some have "cleanTransient b = Some t" by simp
        ultimately show ?thesis
          using OpPut None TransientEntry rk Some g
          by (cases r) (simp_all add: PutWithPrefetch_def)
      qed
    next
      case PermanentEntry
      with OpPut None
        pm[of "b\<lparr>cleanPermanent := AList.update (ID ptr) blk (cleanPermanent b)\<rparr>" ptr PermanentEntry hp
              "map_of (cleanPermanent b) (ID ptr) \<noteq> None"]
      show ?thesis by (simp add: PutWithPrefetch_def)
    qed (use OpPut None in \<open>simp_all add: PutWithPrefetch_def\<close>)
  qed
qed (auto simp: GetWithPrefetch_def CheckForKnownPtr_def SetCleanBytesCapacity_def
      DeletePermanent_def DeleteTransient_def DeleteKnownPtr_def
      split: option.splits prod.splits)

lemma accounted_run:
  "wellformed b \<Longrightarrow> cleanTransient b \<noteq> None \<Longrightarrow> accounted b \<Longrightarrow> admissible H b xs \<Longrightarrow>
   accounted (run H b xs)"
proof (induction xs arbitrary: b)
  case Nil
  then show ?case by simp
next
  case (Cons x xs)
  from Cons.prems have "accounted (step H b x)" by (simp add: accounted_step)
  moreover from Cons.prems have "wellformed (step H b x)" by (simp add: wellformed_step)
  moreover from Cons.prems have "cleanTransient (step H b x) \<noteq> None"
    by (simp add: transient_enabled_step)
  moreover from Cons.prems have "admissible H (step H b x) xs" by simp
  ultimately show ?case using Cons.IH by simp
qed

lemma transientLen_transientRemoveOldest:
  "transientLen (transientRemoveOldest b) = transientLen b - 1"
  by (auto simp: transientLen_def lru_Len_def lru_RemoveOldest_def split: option.splits)

lemma makeRoomLoop_exhausts:
  "(oldLen = transientLen b \<longrightarrow> transientLen b = 0) \<Longrightarrow>
   \<not> (cleanTotalBytes (makeRoomLoop oldLen sz cap b) + sz > cap) \<or>
   transientLen (makeRoomLoop oldLen sz cap b) = 0"
proof (induction oldLen sz cap b rule: makeRoomLoop.induct)
  case (1 oldLen sz cap b)
  show ?case
  proof (cases "cleanTotalBytes b + sz > cap \<and> oldLen \<noteq> transientLen b")
    case True
    then have eq: "makeRoomLoop oldLen sz cap b =
        makeRoomLoop (transientLen b) sz cap (transientRemoveOldest b)"
      by (simp add: makeRoomLoop.simps[of oldLen])
    have "transientLen b = transientLen (transientRemoveOldest b) \<longrightarrow>
          transientLen (transientRemoveOldest b) = 0"
      unfolding transientLen_transientRemoveOldest by arith
    with "1.IH" True eq show ?thesis by simp
  next
    case False
    then have "makeRoomLoop oldLen sz cap b = b"
      by (auto simp: makeRoomLoop.simps[of oldLen])
    with False "1.prems" show ?thesis by auto
  qed
qed

lemma word_fits:
  fixes a s c :: "64 word"
  assumes "unat a + unat s \<le> unat c"
  shows "\<not> (c < a + s)"
proof -
  have "unat c < 2 ^ 64" using unsigned_less[of c] by simp
  with assms have "unat a + unat s < 2 ^ 64" by simp
  from word_add_no_overflow[OF this] assms show ?thesis
    by (simp add: word_less_nat_alt)
qed

lemma transientLen_0_bytes: "transientLen b = 0 \<Longrightarrow> transientBytes b = 0"
  by (auto simp: transientLen_def transientBytes_def lru_Len_def split: option.splits)

text \<open>
  With the byte counter charged with the transient bytes plus \<open>m\<close>, a size that fits
  beside \<open>m\<close> gets room.
\<close>

lemma makeRoomForSize_room:
  assumes ch: "charged b m" and en: "cleanTransient b \<noteq> None"
    and fit: "m + unat sz \<le> unat (cleanBytesCapacity b)"
  shows "fst (makeRoomForSize sz lt b)"
proof -
  from en obtain t where t: "cleanTransient b = Some t" by auto
  let ?cap = "GetCleanBytesCapacity b"
  let ?b1 = "makeRoomLoop (lru_Len t + 1) sz ?cap b"
  from t have "lru_Len t + 1 = transientLen b \<longrightarrow> transientLen b = 0"
    by (simp add: transientLen_def)
  from makeRoomLoop_exhausts[OF this, where sz = sz and cap = ?cap]
  have d: "\<not> (cleanTotalBytes ?b1 + sz > ?cap) \<or> transientLen ?b1 = 0" .
  have "\<not> (cleanTotalBytes ?b1 + sz > ?cap)"
  proof (cases "transientLen ?b1 = 0")
    case True
    from charged_makeRoomLoop[OF ch, of "lru_Len t + 1" sz ?cap] transientLen_0_bytes[OF True]
    have "unat (cleanTotalBytes ?b1) = m" by (simp add: charged_def)
    with fit have "unat (cleanTotalBytes ?b1) + unat sz \<le> unat ?cap"
      by (simp add: GetCleanBytesCapacity_def)
    then show ?thesis by (rule word_fits)
  next
    case False
    with d show ?thesis by simp
  qed
  with t show ?thesis by (simp add: makeRoomForSize_def Let_def)
qed

lemma map_of_butlast_Some: "map_of (butlast xs) k = Some v \<Longrightarrow> map_of xs k = Some v"
  by (induction xs) (auto split: if_splits)

lemma lru_Add_lookup_cases:
  "map_of (lru_items (fst (lru_Add k v c))) k' = Some p \<Longrightarrow>
   (k' = k \<and> p = v) \<or> map_of (lru_items c) k' = Some p"
proof (cases "map_of (lru_items c) k")
  case (Some old)
  assume "map_of (lru_items (fst (lru_Add k v c))) k' = Some p"
  with Some show ?thesis
    by (auto simp: lru_Add_def map_of_delete_other split: if_splits)
next
  case None
  assume a: "map_of (lru_items (fst (lru_Add k v c))) k' = Some p"
  show ?thesis
  proof (cases "length (lru_items c) + 1 > lru_size c")
    case True
    with None a have "map_of (butlast ((k, v) # lru_items c)) k' = Some p"
      by (simp add: lru_Add_def)
    from map_of_butlast_Some[OF this] show ?thesis by (auto split: if_splits)
  next
    case False
    with None a show ?thesis by (auto simp: lru_Add_def split: if_splits)
  qed
qed

lemma knownPtrLookup_recordKnownPtr:
  assumes "knownPtrLookup (snd (recordKnownPtr H b ptr tlf blk)) key = Some p"
  shows "knownPtrLookup b key = Some p \<or> recordedBy H key p (OpPut ptr tlf blk TransientEntry hp)"
proof (cases "ids b")
  case None
  with assms show ?thesis by (simp add: recordKnownPtr_def knownPtrLookup_def)
next
  case (Some c)
  show ?thesis
  proof (cases blk)
    case (FileBlk fb)
    show ?thesis
    proof (cases "IsInd fb")
      case True
      with assms Some FileBlk show ?thesis by (simp add: recordKnownPtr_def)
    next
      case False
      with assms Some FileBlk
      have "map_of (lru_items (fst (lru_Add (tlf, H (Contents fb)) (ptr\<lparr>RefNonce := ZeroRefNonce\<rparr>) c))) key
            = Some p"
        by (simp add: recordKnownPtr_def knownPtrLookup_def GetHash_def Let_def)
      from lru_Add_lookup_cases[OF this] Some FileBlk False show ?thesis
        by (auto simp: knownPtrLookup_def recordedBy_def)
    qed
  qed (use assms Some in \<open>simp_all add: recordKnownPtr_def\<close>)
qed

lemma knownPtrLookup_step:
  assumes "knownPtrLookup (step H b x) key = Some p"
  shows "knownPtrLookup b key = Some p \<or> recordedBy H key p x"
proof (cases x)
  case (OpPut ptr tlf blk lt hp)
  show ?thesis
  proof (cases "blockTypeCheck blk")
    case (Some e)
    with assms OpPut show ?thesis by (simp add: PutWithPrefetch_def)
  next
    case None
    show ?thesis
    proof (cases lt)
      case TransientEntry
      from PutWithPrefetch_transient_ids[OF None, of H b ptr tlf hp] assms OpPut TransientEntry
      have "knownPtrLookup (snd (recordKnownPtr H b ptr tlf blk)) key = Some p"
        by (simp add: knownPtrLookup_def)
      from knownPtrLookup_recordKnownPtr[OF this] OpPut TransientEntry show ?thesis by simp
    next
      case PermanentEntry
      with assms OpPut None show ?thesis
        by (simp add: PutWithPrefetch_def knownPtrLookup_def)
    qed (use assms OpPut None in \<open>simp_all add: PutWithPrefetch_def\<close>)
  qed
next
  case (OpGet ptr)
  with assms show ?thesis
    by (auto simp: GetWithPrefetch_def knownPtrLookup_def split: option.splits prod.splits)
next
  case (OpCheckForKnownPtr tlf fb)
  with assms show ?thesis
    by (auto simp: CheckForKnownPtr_def knownPtrLookup_def lru_Get_def map_of_delete_other
        split: option.splits prod.splits if_splits)
next
  case (OpSetCleanBytesCapacity c)
  with assms show ?thesis by (simp add: SetCleanBytesCapacity_def knownPtrLookup_def)
next
  case (OpDeletePermanent k)
  with assms show ?thesis
    by (auto simp: DeletePermanent_def knownPtrLookup_def split: option.splits)
next
  case (OpDeleteTransient ptr tlf)
  with assms show ?thesis
    by (auto simp: DeleteTransient_def knownPtrLookup_def forgetKnownPtr_def
        split: option.splits prod.splits Block.splits if_splits)
next
  case (OpDeleteKnownPtr tlf fb)
  with assms show ?thesis
    by (auto simp: DeleteKnownPtr_def knownPtrLookup_def split: option.splits if_splits)
qed

lemma knownPtrLookup_run:
  "knownPtrLookup (run H b xs) key = Some p \<Longrightarrow>
   knownPtrLookup b key = Some p \<or> (\<exists>x \<in> set xs. recordedBy H key p x)"
proof (induction xs arbitrary: b)
  case Nil
  then show ?case by simp
next
  case (Cons x xs)
  from Cons.prems have "knownPtrLookup (run H (step H b x) xs) key = Some p" by simp
  from Cons.IH[OF this] knownPtrLookup_step[of H b x key p] show ?case by auto
qed

section \<open>Evaluation of concrete caches\<close>

lemmas cache_eval = PutWithPrefetch_def putMakeRoom_def makeRoomForSize_def makeRoomLoop.simps
  recordKnownPtr_def transientAdd_def transientRemove_def transientRemoveOldest_def
  transientLen_def lru_Add_def lru_Get_def lru_Len_def lru_Remove_def lru_RemoveOldest_def
  evicted_def onEvict_def subtractBlockBytes_def GetCleanBytesCapacity_def
  SetCleanBytesCapacity_def DeletePermanent_def DeleteTransient_def forgetKnownPtr_def
  GetHash_def newCache_def examplePtr_def exampleHash_def exampleFile_def exampleResident_def
  transientLookup_def permanentLookup_def knownPtrLookup_def Let_def
  CheckForKnownPtr_def GetWithPrefetch_def Get_def ZeroRefNonce_def zeroBlockPointer_def
  accounted_def residentBytes_def transientBytes_def permanentBytes_def cachedSize_def
  wellformed_def lru_wf_def putKeepsSize_def recordedBy_def NewBlockCacheStandard_eq

section \<open>The claims\<close>

subsection \<open>C1: the byte counter and the resident blocks\<close>

text \<open>
  C1, as amended. In a cache constructed with a positive transient capacity, after every
  admissible list of calls run one after the other, \<open>cleanTotalBytes\<close> equals the sum of
  the cached sizes of the blocks in the transient store and in the permanent store. A
  list is admissible when every put under an ID that its target store already holds
  carries a block of the size stored there (the assumption written above
  \<open>PutWithPrefetch\<close>), and the resident bytes stay below \<open>2 ^ 64\<close>. A repeated put of
  the same block is admissible.
\<close>

theorem usedBytes_equals_resident_bytes:
  assumes pos: "0 < transientCapacity"
    and new: "NewBlockCacheStandard transientCapacity capacity = Some init"
    and adm: "admissible H init ops"
  shows "accounted (run H init ops)"
proof -
  from pos new have "cleanTransient init \<noteq> None" "accounted init"
    by (auto simp: NewBlockCacheStandard_eq newCache_def accounted_def residentBytes_def
        transientBytes_def permanentBytes_def)
  with wellformed_New[OF new] adm show ?thesis by (simp add: accounted_run)
qed

text \<open>
  An instance: a transient put of 32 bytes, a permanent put of 500 bytes and the
  transient put again leave 532 bytes counted and resident.
\<close>

theorem usedBytes_equals_resident_bytes_witness:
  "(0::int) < 10 \<and>
   NewBlockCacheStandard 10 1000 = Some (newCache 10 1000 :: nat BlockCacheStandard) \<and>
   admissible exampleHash (newCache 10 1000)
     [OpPut (examplePtr 1) 0 (FileBlk exampleFile) TransientEntry False,
      OpPut (examplePtr 2) 0 (DirBlock 500) PermanentEntry True,
      OpPut (examplePtr 1) 0 (FileBlk exampleFile) TransientEntry True] \<and>
   accounted (run exampleHash (newCache 10 1000)
     [OpPut (examplePtr 1) 0 (FileBlk exampleFile) TransientEntry False,
      OpPut (examplePtr 2) 0 (DirBlock 500) PermanentEntry True,
      OpPut (examplePtr 1) 0 (FileBlk exampleFile) TransientEntry True]) \<and>
   cleanTotalBytes (run exampleHash (newCache 10 1000)
     [OpPut (examplePtr 1) 0 (FileBlk exampleFile) TransientEntry False,
      OpPut (examplePtr 2) 0 (DirBlock 500) PermanentEntry True,
      OpPut (examplePtr 1) 0 (FileBlk exampleFile) TransientEntry True]) = 532"
  using usedBytes_equals_resident_bytes[where transientCapacity = 10 and capacity = 1000
      and init = "newCache 10 1000" and H = exampleHash
      and ops = "[OpPut (examplePtr 1) 0 (FileBlk exampleFile) TransientEntry False,
                  OpPut (examplePtr 2) 0 (DirBlock 500) PermanentEntry True,
                  OpPut (examplePtr 1) 0 (FileBlk exampleFile) TransientEntry True]"]
  by (simp add: cache_eval)

text \<open>
  The claim as stated fails in a cache constructed with transient capacity 0: after one
  permanent put of a directory block of 500 bytes the block is resident and
  \<open>cleanTotalBytes\<close> is 0. It also fails, in a cache with a transient store, after a
  permanent put of 10 bytes and a second permanent put of 50 bytes under the same ID:
  50 bytes are resident and 10 are counted.
\<close>

theorem usedBytes_not_resident_bytes_counterexample:
  "NewBlockCacheStandard 0 1000 = Some (newCache 0 1000 :: nat BlockCacheStandard) \<and>
   cleanTotalBytes (run exampleHash (newCache 0 1000)
      [OpPut (examplePtr 1) 0 (DirBlock 500) PermanentEntry True]) = 0 \<and>
   residentBytes (run exampleHash (newCache 0 1000)
      [OpPut (examplePtr 1) 0 (DirBlock 500) PermanentEntry True]) = 500 \<and>
   \<not> accounted (run exampleHash (newCache 0 1000)
      [OpPut (examplePtr 1) 0 (DirBlock 500) PermanentEntry True]) \<and>
   \<not> accounted (run exampleHash (newCache 10 1000)
      [OpPut (examplePtr 1) 0 (DirBlock 10) PermanentEntry True,
       OpPut (examplePtr 1) 0 (DirBlock 50) PermanentEntry True])"
  by (simp add: cache_eval)

subsection \<open>C2: transient puts under a capacity\<close>

text \<open>
  C2, as amended. In a well-formed cache whose byte counter equals the resident bytes and
  whose capacity is \<open>c\<close> (as after \<open>SetCleanBytesCapacity b c\<close>), a put with the transient
  lifetime of a directory or file block returns no error whenever the bytes of the
  permanent entries plus the cached size of the block are at most \<open>c\<close>: the eviction of
  transient entries then makes room. Permanent entries are never evicted, and their bytes
  count against the capacity. Both assumptions on the cache hold after every admissible
  list of calls on a new cache with a transient store (\<open>wellformed_run\<close>,
  \<open>accounted_run\<close>); in a cache without a transient store the put returns no error and
  stores nothing.
\<close>

theorem transient_put_fits_beside_permanent:
  assumes wf: "wellformed b" and acc: "accounted b"
    and tc: "blockTypeCheck blk = None"
    and cap: "GetCleanBytesCapacity b = c"
    and fit: "permanentBytes b + cachedSize blk \<le> unat c"
  shows "fst (PutWithPrefetch H b ptr tlf blk TransientEntry hp) = None"
proof -
  obtain p1 b1 where rk: "recordKnownPtr H b ptr tlf blk = (p1, b1)"
    by (cases "recordKnownPtr H b ptr tlf blk")
  from rk have b1t: "cleanTransient b1 = cleanTransient b"
    and b1p: "cleanPermanent b1 = cleanPermanent b" and b1n: "cleanTotalBytes b1 = cleanTotalBytes b"
    and b1c: "cleanBytesCapacity b1 = cleanBytesCapacity b"
    using recordKnownPtr_frame[of H b ptr tlf blk] by simp_all
  from rk wf have wf1: "wellformed b1"
    using wellformed_recordKnownPtr[of b H ptr tlf blk] by simp
  show ?thesis
  proof (cases "cleanTransient b1")
    case None
    with tc rk show ?thesis by (simp add: PutWithPrefetch_def)
  next
    case (Some t)
    define t' where "t' = snd (lru_Get (ID p1) t)"
    let ?b2 = "b1\<lparr>cleanTransient := Some t'\<rparr>"
    from acc b1t b1p b1n have ch1: "charged b1 (permanentBytes b)"
      by (simp add: accounted_charged charged_def transientBytes_def permanentBytes_def)
    have ch2: "charged ?b2 (permanentBytes b)"
      unfolding t'_def using charged_Get[OF wf1 Some, of "ID p1" "permanentBytes b"] ch1 by simp
    from fit cap b1c have "permanentBytes b + unat (ucast (getCachedBlockSize blk) :: 64 word)
        \<le> unat (cleanBytesCapacity ?b2)"
      by (simp add: GetCleanBytesCapacity_def)
    from makeRoomForSize_room[OF ch2 _ this, of TransientEntry]
    have room: "fst (makeRoomForSize (ucast (getCachedBlockSize blk)) TransientEntry ?b2)" by simp
    obtain r where g: "lru_Get (ID p1) t = (r, t')"
      by (cases "lru_Get (ID p1) t") (simp add: t'_def)
    from room have "fst (putMakeRoom ?b2 p1 blk TransientEntry h w) = None" for h w
      by (cases "makeRoomForSize (ucast (getCachedBlockSize blk)) TransientEntry ?b2")
         (simp add: putMakeRoom_def)
    with tc rk Some g show ?thesis
      by (cases r) (simp_all add: PutWithPrefetch_def)
  qed
qed

text \<open>
  An instance: 500 permanent bytes and 432 transient bytes are resident when the capacity
  is set to 600; a transient put of 100 bytes evicts the transient entries and succeeds.
\<close>

theorem transient_put_fits_beside_permanent_witness:
  "wellformed (SetCleanBytesCapacity (run exampleHash (newCache 10 1000)
      [OpPut (examplePtr 2) 0 (DirBlock 500) PermanentEntry True,
       OpPut (examplePtr 1) 0 (FileBlk exampleFile) TransientEntry False,
       OpPut (examplePtr 3) 0 (DirBlock 400) TransientEntry False]) 600) \<and>
   accounted (SetCleanBytesCapacity (run exampleHash (newCache 10 1000)
      [OpPut (examplePtr 2) 0 (DirBlock 500) PermanentEntry True,
       OpPut (examplePtr 1) 0 (FileBlk exampleFile) TransientEntry False,
       OpPut (examplePtr 3) 0 (DirBlock 400) TransientEntry False]) 600) \<and>
   cleanTotalBytes (SetCleanBytesCapacity (run exampleHash (newCache 10 1000)
      [OpPut (examplePtr 2) 0 (DirBlock 500) PermanentEntry True,
       OpPut (examplePtr 1) 0 (FileBlk exampleFile) TransientEntry False,
       OpPut (examplePtr 3) 0 (DirBlock 400) TransientEntry False]) 600) = 932 \<and>
   blockTypeCheck (DirBlock 100) = None \<and>
   GetCleanBytesCapacity (SetCleanBytesCapacity (run exampleHash (newCache 10 1000)
      [OpPut (examplePtr 2) 0 (DirBlock 500) PermanentEntry True,
       OpPut (examplePtr 1) 0 (FileBlk exampleFile) TransientEntry False,
       OpPut (examplePtr 3) 0 (DirBlock 400) TransientEntry False]) 600) = 600 \<and>
   permanentBytes (SetCleanBytesCapacity (run exampleHash (newCache 10 1000)
      [OpPut (examplePtr 2) 0 (DirBlock 500) PermanentEntry True,
       OpPut (examplePtr 1) 0 (FileBlk exampleFile) TransientEntry False,
       OpPut (examplePtr 3) 0 (DirBlock 400) TransientEntry False]) 600)
     + cachedSize (DirBlock 100) \<le> unat (600 :: 64 word) \<and>
   fst (PutWithPrefetch exampleHash (SetCleanBytesCapacity (run exampleHash (newCache 10 1000)
      [OpPut (examplePtr 2) 0 (DirBlock 500) PermanentEntry True,
       OpPut (examplePtr 1) 0 (FileBlk exampleFile) TransientEntry False,
       OpPut (examplePtr 3) 0 (DirBlock 400) TransientEntry False]) 600)
     (examplePtr 4) 0 (DirBlock 100) TransientEntry False) = None"
  using transient_put_fits_beside_permanent[where
      b = "SetCleanBytesCapacity (run exampleHash (newCache 10 1000)
        [OpPut (examplePtr 2) 0 (DirBlock 500) PermanentEntry True,
         OpPut (examplePtr 1) 0 (FileBlk exampleFile) TransientEntry False,
         OpPut (examplePtr 3) 0 (DirBlock 400) TransientEntry False]) 600"
      and blk = "DirBlock 100" and c = 600 and H = exampleHash and ptr = "examplePtr 4"
      and tlf = 0 and hp = False]
  by (simp add: cache_eval)

text \<open>
  The claim as stated fails where permanent entries hold bytes: after a permanent put of
  500 bytes and \<open>SetCleanBytesCapacity\<close> to 100, a transient put of 10 bytes, which is at
  most 100, returns \<open>cachePutCacheFullError\<close>.
\<close>

theorem transient_put_under_capacity_counterexample:
  "unat (getCachedBlockSize (DirBlock 10)) \<le> unat (100 :: 64 word) \<and>
   GetCleanBytesCapacity (run exampleHash (newCache 10 100)
        [OpPut (examplePtr 1) 0 (DirBlock 500) PermanentEntry True,
         OpSetCleanBytesCapacity 100]) = 100 \<and>
   fst (PutWithPrefetch exampleHash
     (run exampleHash (newCache 10 100)
        [OpPut (examplePtr 1) 0 (DirBlock 500) PermanentEntry True,
         OpSetCleanBytesCapacity 100])
     (examplePtr 2) 0 (DirBlock 10) TransientEntry False) = Some (cachePutCacheFullError 2)"
  by (simp add: cache_eval)

subsection \<open>C3: permanent puts\<close>

text \<open>
  C3, as amended. A put with the permanent lifetime of a directory or file block returns
  no error, and the block is in the permanent store afterwards. When the cache has a
  transient store and the ID was not in the permanent store, the size of the block is
  added to \<open>cleanTotalBytes\<close> as the eviction loop leaves it, whether the block fits under
  the capacity or not; with an empty transient store \<open>cleanTotalBytes\<close> grows by exactly
  the size.
\<close>

theorem permanent_put_stored_and_charged:
  assumes tc: "blockTypeCheck blk = None"
  shows "fst (PutWithPrefetch H b ptr tlf blk PermanentEntry hp) = None \<and>
         permanentLookup (snd (PutWithPrefetch H b ptr tlf blk PermanentEntry hp)) (ID ptr) = Some blk \<and>
         (cleanTransient b \<noteq> None \<and> permanentLookup b (ID ptr) = None \<longrightarrow>
            cleanTotalBytes (snd (PutWithPrefetch H b ptr tlf blk PermanentEntry hp)) =
              cleanTotalBytes
                (makeRoomLoop (transientLen b + 1) (ucast (getCachedBlockSize blk))
                   (GetCleanBytesCapacity b)
                   (b\<lparr>cleanPermanent := AList.update (ID ptr) blk (cleanPermanent b)\<rparr>))
              + ucast (getCachedBlockSize blk) \<and>
            (transientLen b = 0 \<longrightarrow>
               cleanTotalBytes (snd (PutWithPrefetch H b ptr tlf blk PermanentEntry hp)) =
                 cleanTotalBytes b + ucast (getCachedBlockSize blk)))"
proof -
  have "makeRoomLoop (transientLen b + 1) (ucast (getCachedBlockSize blk)) (GetCleanBytesCapacity b)
          (b\<lparr>cleanPermanent := AList.update (ID ptr) blk (cleanPermanent b)\<rparr>) =
        b\<lparr>cleanPermanent := AList.update (ID ptr) blk (cleanPermanent b)\<rparr>"
    if "transientLen b = 0"
    by (rule makeRoomLoop_empty) (use that in \<open>simp add: transientLen_def\<close>)
  with PutWithPrefetch_permanent_ok[OF tc, of H b ptr tlf hp]
    PutWithPrefetch_permanent_bytes[OF tc, of H b ptr tlf hp]
  show ?thesis by auto
qed

text \<open>
  An instance: with capacity 100 and an empty transient store, a permanent put of 500
  bytes succeeds and \<open>cleanTotalBytes\<close> becomes 500.
\<close>

theorem permanent_put_stored_and_charged_witness:
  "blockTypeCheck (DirBlock 500) = None \<and>
   cleanTransient (newCache 10 100 :: nat BlockCacheStandard) \<noteq> None \<and>
   permanentLookup (newCache 10 100 :: nat BlockCacheStandard) (ID (examplePtr 1)) = None \<and>
   transientLen (newCache 10 100 :: nat BlockCacheStandard) = 0 \<and>
   fst (PutWithPrefetch exampleHash (newCache 10 100) (examplePtr 1) 0 (DirBlock 500)
          PermanentEntry True) = None \<and>
   permanentLookup (snd (PutWithPrefetch exampleHash (newCache 10 100) (examplePtr 1) 0
          (DirBlock 500) PermanentEntry True)) (ID (examplePtr 1)) = Some (DirBlock 500) \<and>
   cleanTotalBytes (snd (PutWithPrefetch exampleHash (newCache 10 100) (examplePtr 1) 0
          (DirBlock 500) PermanentEntry True)) = 500"
  using permanent_put_stored_and_charged[where blk = "DirBlock 500" and H = exampleHash
      and b = "newCache 10 100" and ptr = "examplePtr 1" and tlf = 0 and hp = True]
  by (simp add: cache_eval)

text \<open>
  The claim as stated fails in a cache constructed with transient capacity 0 and byte
  capacity 100: a permanent put of 500 bytes does not fit, succeeds, and leaves
  \<open>cleanTotalBytes\<close> at 0. It fails as well for a put under an ID that the permanent store
  already holds, and for the common block, which is rejected.
\<close>

theorem permanent_put_not_charged_counterexample:
  "GetCleanBytesCapacity (newCache 0 100 :: nat BlockCacheStandard) <
     cleanTotalBytes (newCache 0 100 :: nat BlockCacheStandard) + ucast (getCachedBlockSize (DirBlock 500)) \<and>
   fst (PutWithPrefetch exampleHash (newCache 0 100) (examplePtr 1) 0 (DirBlock 500)
          PermanentEntry True) = None \<and>
   cleanTotalBytes (snd (PutWithPrefetch exampleHash (newCache 0 100) (examplePtr 1) 0
          (DirBlock 500) PermanentEntry True)) = 0 \<and>
   fst (PutWithPrefetch exampleHash (newCache 10 100) (examplePtr 1) 0 (CommonBlock 5)
          PermanentEntry True) = Some AttemptedCommonBlock"
  by (simp add: cache_eval)

subsection \<open>C4: get\<close>

text \<open>
  C4. \<open>GetWithPrefetch\<close> answers from the transient store when the ID of the pointer is
  there, with the stored prefetch flag; otherwise from the permanent store when the ID
  is there, and then always with \<open>hasPrefetched = True\<close> and the permanent lifetime;
  otherwise with the error \<open>NoSuchBlockError\<close> for that ID. \<open>Get\<close> returns the same
  block or the same error.
\<close>

theorem get_probes_transient_then_permanent:
  "fst (GetWithPrefetch b ptr) =
     (case transientLookup b (ID ptr) of
        Some bc \<Rightarrow> Inr (block bc, hasPrefetched bc, TransientEntry)
      | None \<Rightarrow>
          (case permanentLookup b (ID ptr) of
             Some blk \<Rightarrow> Inr (blk, True, PermanentEntry)
           | None \<Rightarrow> Inl (NoSuchBlockError (ID ptr)))) \<and>
   fst (Get b ptr) =
     (case transientLookup b (ID ptr) of
        Some bc \<Rightarrow> Inr (block bc)
      | None \<Rightarrow>
          (case permanentLookup b (ID ptr) of
             Some blk \<Rightarrow> Inr blk
           | None \<Rightarrow> Inl (NoSuchBlockError (ID ptr))))"
  by (simp add: GetWithPrefetch_result Get_result)

subsection \<open>C5: the prefetch flag on a repeated put\<close>

text \<open>
  C5. In a well-formed cache, a transient put of a directory or file block under an ID
  that the transient store holds returns no error and leaves the new block with the
  flag \<open>hp \<or> hasPrefetched bc0\<close>, where \<open>bc0\<close> is the entry stored before. In
  particular, when a transient put with \<open>hasPrefetched = True\<close> has returned no error in
  a cache with a transient store, a transient put with \<open>hasPrefetched = False\<close> at the
  same pointer returns no error and leaves an entry whose flag is \<open>True\<close>.
\<close>

theorem reput_merges_prefetch_flag:
  assumes wf: "wellformed b" and tc: "blockTypeCheck blk = None"
  shows "(transientLookup b (ID ptr) = Some bc0 \<longrightarrow>
            fst (PutWithPrefetch H b ptr tlf blk TransientEntry hp) = None \<and>
            transientLookup (snd (PutWithPrefetch H b ptr tlf blk TransientEntry hp)) (ID ptr) =
              Some (blockContainer blk (hp \<or> hasPrefetched bc0))) \<and>
         (cleanTransient b \<noteq> None \<and>
          fst (PutWithPrefetch H b ptr tlf0 blk0 TransientEntry True) = None \<longrightarrow>
            fst (PutWithPrefetch H (snd (PutWithPrefetch H b ptr tlf0 blk0 TransientEntry True))
                   ptr tlf blk TransientEntry False) = None \<and>
            transientLookup
              (snd (PutWithPrefetch H (snd (PutWithPrefetch H b ptr tlf0 blk0 TransientEntry True))
                      ptr tlf blk TransientEntry False)) (ID ptr) =
              Some (blockContainer blk True))"
proof -
  have merge: "fst (PutWithPrefetch H x ptr tlf blk TransientEntry h) = None \<and>
      transientLookup (snd (PutWithPrefetch H x ptr tlf blk TransientEntry h)) (ID ptr) =
        Some (blockContainer blk (h \<or> hasPrefetched bc))"
    if wfx: "wellformed x" and res: "transientLookup x (ID ptr) = Some bc"
    for x :: "'a BlockCacheStandard" and bc h
  proof -
    from res have en: "cleanTransient x \<noteq> None"
      by (auto simp: transientLookup_def split: option.splits)
    have ok: "fst (PutWithPrefetch H x ptr tlf blk TransientEntry h) = None"
      by (rule PutWithPrefetch_transient_reput_ok[OF res tc])
    from PutWithPrefetch_transient_resident[OF wfx en ok] res ok show ?thesis by simp
  qed
  have second: "fst (PutWithPrefetch H (snd (PutWithPrefetch H b ptr tlf0 blk0 TransientEntry True))
                   ptr tlf blk TransientEntry False) = None \<and>
            transientLookup
              (snd (PutWithPrefetch H (snd (PutWithPrefetch H b ptr tlf0 blk0 TransientEntry True))
                      ptr tlf blk TransientEntry False)) (ID ptr) =
              Some (blockContainer blk True)"
    if en: "cleanTransient b \<noteq> None"
      and ok: "fst (PutWithPrefetch H b ptr tlf0 blk0 TransientEntry True) = None"
  proof -
    let ?b1 = "snd (PutWithPrefetch H b ptr tlf0 blk0 TransientEntry True)"
    have wf1: "wellformed ?b1" by (rule wellformed_PutWithPrefetch[OF wf])
    from PutWithPrefetch_transient_resident[OF wf en ok]
    have "transientLookup ?b1 (ID ptr) = Some (blockContainer blk0 True)" by simp
    from merge[OF wf1 this, of False] show ?thesis by simp
  qed
  from merge[OF wf, of bc0 hp] second show ?thesis by blast
qed

text \<open>
  An instance: the file block is resident with the flag \<open>False\<close>; a put with
  \<open>True\<close> and then a put with \<open>False\<close> leave the flag \<open>True\<close>.
\<close>

theorem reput_merges_prefetch_flag_witness:
  "wellformed exampleResident \<and>
   blockTypeCheck (FileBlk exampleFile) = None \<and>
   transientLookup exampleResident (ID (examplePtr 1)) =
     Some (blockContainer (FileBlk exampleFile) False) \<and>
   cleanTransient exampleResident \<noteq> None \<and>
   fst (PutWithPrefetch exampleHash exampleResident (examplePtr 1) 0 (FileBlk exampleFile)
          TransientEntry True) = None \<and>
   transientLookup (snd (PutWithPrefetch exampleHash exampleResident (examplePtr 1) 0
          (FileBlk exampleFile) TransientEntry True)) (ID (examplePtr 1)) =
     Some (blockContainer (FileBlk exampleFile) (True \<or> False)) \<and>
   fst (PutWithPrefetch exampleHash
          (snd (PutWithPrefetch exampleHash exampleResident (examplePtr 1) 0 (FileBlk exampleFile)
                  TransientEntry True))
          (examplePtr 1) 0 (FileBlk exampleFile) TransientEntry False) = None \<and>
   transientLookup
     (snd (PutWithPrefetch exampleHash
          (snd (PutWithPrefetch exampleHash exampleResident (examplePtr 1) 0 (FileBlk exampleFile)
                  TransientEntry True))
          (examplePtr 1) 0 (FileBlk exampleFile) TransientEntry False)) (ID (examplePtr 1)) =
     Some (blockContainer (FileBlk exampleFile) True)"
  using reput_merges_prefetch_flag[where b = exampleResident and blk = "FileBlk exampleFile"
      and ptr = "examplePtr 1" and ?bc0.0 = "blockContainer (FileBlk exampleFile) False"
      and H = exampleHash and tlf = 0 and hp = True and ?tlf0.0 = 0
      and ?blk0.0 = "FileBlk exampleFile"]
  by (simp add: cache_eval)

subsection \<open>C6: the round trip through the known pointers\<close>

text \<open>
  C6, as amended. In a well-formed cache that has the \<open>ids\<close> index (a cache constructed
  with a positive transient capacity), after a put with the transient lifetime of a
  direct file block at the pointer \<open>ptr\<close> in the folder \<open>tlf\<close>, whether the put
  returns an error or not, \<open>CheckForKnownPtr\<close> in that folder with a direct file block
  of the same contents returns \<open>ptr\<close> with its \<open>RefNonce\<close> zeroed. Well-formedness
  holds in every cache reached from a new one (\<open>wellformed_New\<close>, \<open>wellformed_run\<close>).
\<close>

theorem known_ptr_round_trip:
  assumes wf: "wellformed b" and en: "ids b \<noteq> None"
    and direct: "\<not> IsInd fb" "\<not> IsInd fb'" and same: "Contents fb' = Contents fb"
  shows "fst (CheckForKnownPtr H (snd (PutWithPrefetch H b ptr tlf (FileBlk fb) TransientEntry hp))
            tlf fb') = Inr (ptr\<lparr>RefNonce := ZeroRefNonce\<rparr>)"
proof -
  from en obtain c where c: "ids b = Some c" by auto
  with wf have cwf: "lru_wf c" by (simp add: wellformed_def)
  let ?b1 = "snd (PutWithPrefetch H b ptr tlf (FileBlk fb) TransientEntry hp)"
  have "ids ?b1 = ids (snd (recordKnownPtr H b ptr tlf (FileBlk fb)))"
    by (rule PutWithPrefetch_transient_ids) simp
  also have "\<dots> = Some (fst (lru_Add (tlf, H (Contents fb)) (ptr\<lparr>RefNonce := ZeroRefNonce\<rparr>) c))"
    using c direct(1) by (simp add: recordKnownPtr_def GetHash_def Let_def)
  finally have "ids ?b1 = Some (fst (lru_Add (tlf, H (Contents fb)) (ptr\<lparr>RefNonce := ZeroRefNonce\<rparr>) c))" .
  with lru_Add_lookup[OF cwf, of "(tlf, H (Contents fb))" "ptr\<lparr>RefNonce := ZeroRefNonce\<rparr>"]
  show ?thesis
    using direct(2) same by (simp add: CheckForKnownPtr_result)
qed

text \<open>
  An instance, the scenario of the specification: 32 bytes \<open>0xAA\<close>, looked up with a
  block of the same contents.
\<close>

theorem known_ptr_round_trip_witness:
  "wellformed (newCache 10 1000 :: nat BlockCacheStandard) \<and>
   ids (newCache 10 1000 :: nat BlockCacheStandard) \<noteq> None \<and>
   \<not> IsInd exampleFile \<and> \<not> IsInd (FileBlock False (replicate 32 0xAA) 99) \<and>
   Contents (FileBlock False (replicate 32 0xAA) 99) = Contents exampleFile \<and>
   fst (CheckForKnownPtr exampleHash
          (snd (PutWithPrefetch exampleHash (newCache 10 1000) (examplePtr 1) 7 (FileBlk exampleFile)
                  TransientEntry True))
          7 (FileBlock False (replicate 32 0xAA) 99)) =
     Inr \<lparr>ID = 1, KeyGen = 1, DataVer = 1, RefNonce = 0\<rparr>"
  using known_ptr_round_trip[where b = "newCache 10 1000" and fb = exampleFile
      and fb' = "FileBlock False (replicate 32 0xAA) 99" and H = exampleHash
      and ptr = "examplePtr 1" and tlf = 7 and hp = True]
  by (simp add: cache_eval)

text \<open>
  The claim as stated fails in a cache constructed with transient capacity 0, which has
  no index: the transient put of the direct file block returns no error and records
  nothing, and \<open>CheckForKnownPtr\<close> returns the zero pointer, not the pointer of the put.
\<close>

theorem known_ptr_round_trip_counterexample:
  "NewBlockCacheStandard 0 1000 = Some (newCache 0 1000 :: nat BlockCacheStandard) \<and>
   \<not> IsInd exampleFile \<and>
   fst (PutWithPrefetch exampleHash (newCache 0 1000) (examplePtr 1) 7 (FileBlk exampleFile)
          TransientEntry True) = None \<and>
   fst (CheckForKnownPtr exampleHash
          (snd (PutWithPrefetch exampleHash (newCache 0 1000) (examplePtr 1) 7 (FileBlk exampleFile)
                  TransientEntry True))
          7 exampleFile) = Inr zeroBlockPointer \<and>
   zeroBlockPointer \<noteq> (examplePtr 1)\<lparr>RefNonce := ZeroRefNonce\<rparr>"
  by (simp add: cache_eval)

subsection \<open>C7: where the known pointers come from\<close>

text \<open>
  C7, as amended. After every list of calls on a new cache, every entry of the \<open>ids\<close>
  index was recorded by one of the calls: a put with the transient lifetime of a direct
  file block, in the folder and with the contents hash of the entry's key, at the entry's
  pointer up to the nonce. The put records the entry before it looks for room, so the
  put may have failed with \<open>cachePutCacheFullError\<close> and the block may never have been
  in the transient store. A cache without a transient store has no index and records
  nothing.
\<close>

theorem known_ptrs_come_from_transient_puts:
  assumes new: "NewBlockCacheStandard transientCapacity capacity = Some init"
    and look: "knownPtrLookup (run H init ops) key = Some p"
  shows "\<exists>x \<in> set ops. recordedBy H key p x"
proof -
  from new have "knownPtrLookup init key = None"
    by (auto simp: NewBlockCacheStandard_eq newCache_def knownPtrLookup_def)
  with knownPtrLookup_run[OF look] show ?thesis by simp
qed

theorem known_ptrs_come_from_transient_puts_witness:
  "NewBlockCacheStandard 10 1000 = Some (newCache 10 1000 :: nat BlockCacheStandard) \<and>
   knownPtrLookup
     (run exampleHash (newCache 10 1000)
        [OpPut (examplePtr 2) 0 (DirBlock 500) PermanentEntry True,
         OpPut (examplePtr 1) 7 (FileBlk exampleFile) TransientEntry False])
     (7, exampleHash (Contents exampleFile)) = Some ((examplePtr 1)\<lparr>RefNonce := 0\<rparr>) \<and>
   (\<exists>x \<in> set [OpPut (examplePtr 2) 0 (DirBlock 500) PermanentEntry True,
               OpPut (examplePtr 1) 7 (FileBlk exampleFile) TransientEntry False].
      recordedBy exampleHash (7, exampleHash (Contents exampleFile))
        ((examplePtr 1)\<lparr>RefNonce := 0\<rparr>) x)"
  using known_ptrs_come_from_transient_puts[where transientCapacity = 10 and capacity = 1000
      and init = "newCache 10 1000" and H = exampleHash
      and ops = "[OpPut (examplePtr 2) 0 (DirBlock 500) PermanentEntry True,
                  OpPut (examplePtr 1) 7 (FileBlk exampleFile) TransientEntry False]"
      and key = "(7, exampleHash (Contents exampleFile))"
      and p = "(examplePtr 1)\<lparr>RefNonce := 0\<rparr>"]
  by (simp add: cache_eval)

text \<open>
  The claim as stated fails for a transient put that finds no room: in a new cache with
  a capacity of 16 bytes, the put of the file block of 32 bytes returns
  \<open>cachePutCacheFullError\<close>, the transient store holds nothing under the ID, and the
  index holds the pointer.
\<close>

theorem known_ptr_of_failed_put_counterexample:
  "NewBlockCacheStandard 10 16 = Some (newCache 10 16 :: nat BlockCacheStandard) \<and>
   fst (PutWithPrefetch exampleHash (newCache 10 16) (examplePtr 1) 7 (FileBlk exampleFile)
          TransientEntry False) = Some (cachePutCacheFullError 1) \<and>
   transientLookup
     (snd (PutWithPrefetch exampleHash (newCache 10 16) (examplePtr 1) 7 (FileBlk exampleFile)
             TransientEntry False)) 1 = None \<and>
   knownPtrLookup
     (snd (PutWithPrefetch exampleHash (newCache 10 16) (examplePtr 1) 7 (FileBlk exampleFile)
             TransientEntry False))
     (7, exampleHash (Contents exampleFile)) = Some ((examplePtr 1)\<lparr>RefNonce := 0\<rparr>)"
  by (simp add: cache_eval)

subsection \<open>C8: deleting a transient entry\<close>

text \<open>
  C8, as amended. In a well-formed cache, after a put with the transient lifetime of a
  direct file block, \<open>DeleteTransient\<close> at the same pointer and folder returns no error
  and the transient store holds nothing under the ID of the pointer. \<open>Get\<close> at the
  pointer then returns \<open>NoSuchBlockError\<close> when the permanent store did not hold the
  ID. \<open>CheckForKnownPtr\<close> with the block then returns the zero pointer and no error,
  the index holding nothing under the folder and the hash of the block, when the put had
  returned no error.
\<close>

theorem delete_transient_round_trip:
  assumes wf: "wellformed b" and direct: "\<not> IsInd fb"
  shows "fst (DeleteTransient H (snd (PutWithPrefetch H b ptr tlf (FileBlk fb) TransientEntry hp)) ptr tlf)
           = None \<and>
         transientLookup (snd (DeleteTransient H
                (snd (PutWithPrefetch H b ptr tlf (FileBlk fb) TransientEntry hp)) ptr tlf)) (ID ptr)
           = None \<and>
         (permanentLookup b (ID ptr) = None \<longrightarrow>
            fst (Get (snd (DeleteTransient H
                   (snd (PutWithPrefetch H b ptr tlf (FileBlk fb) TransientEntry hp)) ptr tlf)) ptr)
              = Inl (NoSuchBlockError (ID ptr))) \<and>
         (fst (PutWithPrefetch H b ptr tlf (FileBlk fb) TransientEntry hp) = None \<longrightarrow>
            fst (CheckForKnownPtr H (snd (DeleteTransient H
                   (snd (PutWithPrefetch H b ptr tlf (FileBlk fb) TransientEntry hp)) ptr tlf)) tlf fb)
              = Inr zeroBlockPointer \<and>
            knownPtrLookup (snd (DeleteTransient H
                   (snd (PutWithPrefetch H b ptr tlf (FileBlk fb) TransientEntry hp)) ptr tlf))
                   (tlf, H (Contents fb))
              = None)"
proof -
  let ?b1 = "snd (PutWithPrefetch H b ptr tlf (FileBlk fb) TransientEntry hp)"
  let ?b2 = "snd (DeleteTransient H ?b1 ptr tlf)"
  have perm: "permanentLookup ?b2 (ID ptr) = permanentLookup b (ID ptr)"
    by (simp add: permanentLookup_def PutWithPrefetch_transient_permanent)
  have tl: "transientLookup ?b2 (ID ptr) = None"
    by (rule DeleteTransient_lookup)
  have kl: "knownPtrLookup ?b2 (tlf, H (Contents fb)) = None"
    if put: "fst (PutWithPrefetch H b ptr tlf (FileBlk fb) TransientEntry hp) = None"
  proof (cases "cleanTransient b")
    case None
    with wf have "ids b = None" by (simp add: wellformed_def)
    with None have "?b1 = b"
      by (simp add: PutWithPrefetch_def recordKnownPtr_def)
    with None \<open>ids b = None\<close> show ?thesis
      by (simp add: DeleteTransient_def knownPtrLookup_def)
  next
    case (Some t)
    then have en: "cleanTransient b \<noteq> None" by simp
    from PutWithPrefetch_transient_resident[OF wf en put]
    obtain h where "transientLookup ?b1 (ID ptr) = Some (blockContainer (FileBlk fb) h)"
      by blast
    from DeleteTransient_ids[OF this, of H tlf]
    have "ids ?b2 = ids (forgetKnownPtr H ?b1 tlf (FileBlk fb))" by simp
    then have "knownPtrLookup ?b2 (tlf, H (Contents fb)) =
               knownPtrLookup (forgetKnownPtr H ?b1 tlf (FileBlk fb)) (tlf, H (Contents fb))"
      by (simp add: knownPtrLookup_def)
    with forgetKnownPtr_lookup[OF direct] show ?thesis by simp
  qed
  from perm tl kl direct show ?thesis
    by (simp add: Get_result CheckForKnownPtr_knownPtrLookup)
qed

text \<open>
  An instance, the scenario of the specification: the put succeeds in a new cache, the
  block is read back, and after the delete both lookups miss.
\<close>

theorem delete_transient_round_trip_witness:
  "wellformed (newCache 10 1000 :: nat BlockCacheStandard) \<and> \<not> IsInd exampleFile \<and>
   fst (PutWithPrefetch exampleHash (newCache 10 1000) (examplePtr 1) 7 (FileBlk exampleFile)
          TransientEntry True) = None \<and>
   permanentLookup (newCache 10 1000 :: nat BlockCacheStandard) (ID (examplePtr 1)) = None \<and>
   fst (Get (snd (PutWithPrefetch exampleHash (newCache 10 1000) (examplePtr 1) 7
          (FileBlk exampleFile) TransientEntry True)) (examplePtr 1)) = Inr (FileBlk exampleFile) \<and>
   fst (DeleteTransient exampleHash
          (snd (PutWithPrefetch exampleHash (newCache 10 1000) (examplePtr 1) 7
                  (FileBlk exampleFile) TransientEntry True)) (examplePtr 1) 7) = None \<and>
   fst (Get (snd (DeleteTransient exampleHash
          (snd (PutWithPrefetch exampleHash (newCache 10 1000) (examplePtr 1) 7
                  (FileBlk exampleFile) TransientEntry True)) (examplePtr 1) 7)) (examplePtr 1)) =
     Inl (NoSuchBlockError 1) \<and>
   fst (CheckForKnownPtr exampleHash (snd (DeleteTransient exampleHash
          (snd (PutWithPrefetch exampleHash (newCache 10 1000) (examplePtr 1) 7
                  (FileBlk exampleFile) TransientEntry True)) (examplePtr 1) 7)) 7 exampleFile) =
     Inr zeroBlockPointer"
  using delete_transient_round_trip[where b = "newCache 10 1000" and fb = exampleFile
      and H = exampleHash and ptr = "examplePtr 1" and tlf = 7 and hp = True]
  by (simp add: cache_eval)

text \<open>
  The claim as stated fails after a put that finds no room: in a new cache with a
  capacity of 16 bytes the put of the file block of 32 bytes records the pointer and
  returns \<open>cachePutCacheFullError\<close>; \<open>DeleteTransient\<close> finds nothing in the transient
  store, returns no error and leaves the index, and \<open>CheckForKnownPtr\<close> returns the
  pointer. It also fails when the permanent store holds the ID: after a permanent put
  and a transient put of the block under ID 1, \<open>DeleteTransient\<close> returns no error and
  \<open>Get\<close> returns the block from the permanent store.
\<close>

theorem delete_transient_round_trip_counterexample:
  "\<not> IsInd exampleFile \<and>
   fst (PutWithPrefetch exampleHash (newCache 10 16) (examplePtr 1) 7 (FileBlk exampleFile)
          TransientEntry False) = Some (cachePutCacheFullError 1) \<and>
   fst (DeleteTransient exampleHash
          (snd (PutWithPrefetch exampleHash (newCache 10 16) (examplePtr 1) 7
                  (FileBlk exampleFile) TransientEntry False)) (examplePtr 1) 7) = None \<and>
   fst (CheckForKnownPtr exampleHash (snd (DeleteTransient exampleHash
          (snd (PutWithPrefetch exampleHash (newCache 10 16) (examplePtr 1) 7
                  (FileBlk exampleFile) TransientEntry False)) (examplePtr 1) 7)) 7 exampleFile) =
     Inr ((examplePtr 1)\<lparr>RefNonce := 0\<rparr>) \<and>
   fst (PutWithPrefetch exampleHash
          (run exampleHash (newCache 10 1000)
             [OpPut (examplePtr 1) 7 (FileBlk exampleFile) PermanentEntry True])
          (examplePtr 1) 7 (FileBlk exampleFile) TransientEntry True) = None \<and>
   fst (DeleteTransient exampleHash
          (snd (PutWithPrefetch exampleHash
             (run exampleHash (newCache 10 1000)
                [OpPut (examplePtr 1) 7 (FileBlk exampleFile) PermanentEntry True])
             (examplePtr 1) 7 (FileBlk exampleFile) TransientEntry True)) (examplePtr 1) 7) = None \<and>
   fst (Get (snd (DeleteTransient exampleHash
          (snd (PutWithPrefetch exampleHash
             (run exampleHash (newCache 10 1000)
                [OpPut (examplePtr 1) 7 (FileBlk exampleFile) PermanentEntry True])
             (examplePtr 1) 7 (FileBlk exampleFile) TransientEntry True)) (examplePtr 1) 7))
        (examplePtr 1)) = Inr (FileBlk exampleFile)"
  by (simp add: cache_eval)

subsection \<open>C9: deleting a permanent entry\<close>

text \<open>
  C9, as amended. For an ID that the permanent store holds, \<open>DeletePermanent\<close> returns
  no error and the permanent store no longer holds the ID; \<open>cleanTotalBytes\<close> goes down
  by the cached size of the removed block when it is at least that size, and to 0
  otherwise. When \<open>cleanTotalBytes\<close> equals the resident bytes, it is at least that size,
  and goes down by exactly the size.
\<close>

theorem delete_permanent_debits_saturating:
  assumes res: "permanentLookup b key = Some blk"
  shows "fst (DeletePermanent b key) = None \<and>
         permanentLookup (snd (DeletePermanent b key)) key = None \<and>
         cleanTotalBytes (snd (DeletePermanent b key)) =
           (if ucast (getCachedBlockSize blk) \<le> cleanTotalBytes b
            then cleanTotalBytes b - ucast (getCachedBlockSize blk) else 0) \<and>
         (accounted b \<longrightarrow>
            unat (cleanTotalBytes (snd (DeletePermanent b key))) + cachedSize blk =
            unat (cleanTotalBytes b))"
proof -
  have a: "accounted b \<Longrightarrow> cachedSize blk \<le> unat (cleanTotalBytes b)"
    using permanentLookup_le_permanentBytes[OF res]
    by (simp add: accounted_def residentBytes_def)
  have "accounted b \<Longrightarrow>
      unat (cleanTotalBytes (snd (DeletePermanent b key))) + cachedSize blk = unat (cleanTotalBytes b)"
    using word_sub_saturating[of "ucast (getCachedBlockSize blk)" "cleanTotalBytes b"] a res
    by (simp add: DeletePermanent_def permanentLookup_def subtractBlockBytes_def Let_def)
  with res show ?thesis
    by (simp add: DeletePermanent_def permanentLookup_def subtractBlockBytes_def Let_def
        map_of_delete_other)
qed

theorem delete_permanent_debits_saturating_witness:
  "permanentLookup
     (run exampleHash (newCache 10 1000)
        [OpPut (examplePtr 1) 0 (FileBlk exampleFile) TransientEntry False,
         OpPut (examplePtr 2) 0 (DirBlock 500) PermanentEntry True]) 2 = Some (DirBlock 500) \<and>
   accounted
     (run exampleHash (newCache 10 1000)
        [OpPut (examplePtr 1) 0 (FileBlk exampleFile) TransientEntry False,
         OpPut (examplePtr 2) 0 (DirBlock 500) PermanentEntry True]) \<and>
   cleanTotalBytes
     (run exampleHash (newCache 10 1000)
        [OpPut (examplePtr 1) 0 (FileBlk exampleFile) TransientEntry False,
         OpPut (examplePtr 2) 0 (DirBlock 500) PermanentEntry True]) = 532 \<and>
   permanentLookup (snd (DeletePermanent
     (run exampleHash (newCache 10 1000)
        [OpPut (examplePtr 1) 0 (FileBlk exampleFile) TransientEntry False,
         OpPut (examplePtr 2) 0 (DirBlock 500) PermanentEntry True]) 2)) 2 = None \<and>
   cleanTotalBytes (snd (DeletePermanent
     (run exampleHash (newCache 10 1000)
        [OpPut (examplePtr 1) 0 (FileBlk exampleFile) TransientEntry False,
         OpPut (examplePtr 2) 0 (DirBlock 500) PermanentEntry True]) 2)) = 32"
  using delete_permanent_debits_saturating[where
      b = "run exampleHash (newCache 10 1000)
        [OpPut (examplePtr 1) 0 (FileBlk exampleFile) TransientEntry False,
         OpPut (examplePtr 2) 0 (DirBlock 500) PermanentEntry True]"
      and key = 2 and blk = "DirBlock 500"]
  by (simp add: cache_eval)

text \<open>
  The claim as stated fails after a put of another size under the same ID: a permanent
  put of 10 bytes and then one of 50 bytes under ID 1 leave the block of 50 bytes stored
  and 10 bytes counted; \<open>DeletePermanent\<close> removes the block of 50 bytes and
  \<open>cleanTotalBytes\<close> goes from 10 to 0, down by 10 and not by 50.
\<close>

theorem delete_permanent_resized_counterexample:
  "permanentLookup
     (run exampleHash (newCache 10 1000)
        [OpPut (examplePtr 1) 0 (DirBlock 10) PermanentEntry True,
         OpPut (examplePtr 1) 0 (DirBlock 50) PermanentEntry True]) 1 = Some (DirBlock 50) \<and>
   cachedSize (DirBlock 50) = 50 \<and>
   cleanTotalBytes
     (run exampleHash (newCache 10 1000)
        [OpPut (examplePtr 1) 0 (DirBlock 10) PermanentEntry True,
         OpPut (examplePtr 1) 0 (DirBlock 50) PermanentEntry True]) = 10 \<and>
   cleanTotalBytes (snd (DeletePermanent
     (run exampleHash (newCache 10 1000)
        [OpPut (examplePtr 1) 0 (DirBlock 10) PermanentEntry True,
         OpPut (examplePtr 1) 0 (DirBlock 50) PermanentEntry True]) 1)) = 0"
  by (simp add: cache_eval)

subsection \<open>C10: the cache without a transient store\<close>



end
